theory Spec2Isabelle
  imports Main
begin

section \<open>Python primitives used by \<^verbatim>\<open>asciimatics/parsers.py\<close>\<close>

text \<open>
  Text is a list of characters; a character is identified with its code point, restricted
  here to the range 0..255 of \<^typ>\<open>char\<close>. Python integers are unbounded (\<^typ>\<open>int\<close>),
  \<^verbatim>\<open>None\<close> is \<^term>\<open>None\<close>. An uncaught exception is a value of type \<open>error\<close>.
\<close>

datatype error = ValueError | KeyError | TypeError

abbreviation ESC :: char where
  "ESC \<equiv> CHR 0x1B"

definition py_ord :: "char \<Rightarrow> nat" where
  "py_ord c = of_char c"

text \<open>
  \<^verbatim>\<open>int(s)\<close> on a text string: surrounding whitespace is stripped, one sign is allowed, and
  the rest must be a non-empty run of decimal digits; anything else raises
  \<^verbatim>\<open>ValueError\<close> (here \<^term>\<open>None\<close>). The digit-group separator \<^verbatim>\<open>_\<close> is not
  modelled: it is a final byte of the CSI pattern and is not a digit, so it occurs in no
  string that the parsers convert.
\<close>

definition py_isspace :: "char \<Rightarrow> bool" where
  "py_isspace c = (let n = py_ord c in (9 \<le> n \<and> n \<le> 13) \<or> n = 32 \<or> n = 133 \<or> n = 160)"

definition py_strip :: "string \<Rightarrow> string" where
  "py_strip s = rev (dropWhile py_isspace (rev (dropWhile py_isspace s)))"

definition is_digit :: "char \<Rightarrow> bool" where
  "is_digit c = (48 \<le> py_ord c \<and> py_ord c \<le> 57)"

definition digit_value :: "char \<Rightarrow> nat" where
  "digit_value c = py_ord c - 48"

definition digits_value :: "string \<Rightarrow> nat option" where
  "digits_value ds =
     (if ds \<noteq> [] \<and> list_all is_digit ds
      then Some (foldl (\<lambda>a d. 10 * a + digit_value d) 0 ds) else None)"

definition py_int :: "string \<Rightarrow> int option" where
  "py_int s =
     (case py_strip s of
        [] \<Rightarrow> None
      | c # cs \<Rightarrow>
          if c = CHR ''-'' then map_option (\<lambda>n. - int n) (digits_value cs)
          else if c = CHR ''+'' then map_option int (digits_value cs)
          else map_option int (digits_value (c # cs)))"

text \<open>\<^verbatim>\<open>"{}".format(v)\<close> for an integer or \<^verbatim>\<open>None\<close>.\<close>

definition digit_char :: "nat \<Rightarrow> char" where
  "digit_char d = char_of (48 + d)"

fun digits_of :: "nat \<Rightarrow> string" where
  "digits_of n = (if n < 10 then [digit_char n] else digits_of (n div 10) @ [digit_char (n mod 10)])"

declare digits_of.simps [simp del]

definition py_str :: "int \<Rightarrow> string" where
  "py_str i = (if i < 0 then CHR ''-'' # digits_of (nat (- i)) else digits_of (nat i))"

definition py_format :: "int option \<Rightarrow> string" where
  "py_format v = (case v of None \<Rightarrow> ''None'' | Some i \<Rightarrow> py_str i)"

text \<open>\<^verbatim>\<open>s.split(sep)\<close> for a one-character separator, and \<^verbatim>\<open>sep.join(parts)\<close>.\<close>

fun py_split :: "char \<Rightarrow> string \<Rightarrow> string list" where
  "py_split sep [] = [[]]"
| "py_split sep (c # cs) =
     (if c = sep then [] # py_split sep cs
      else (case py_split sep cs of [] \<Rightarrow> [[c]] | p # ps \<Rightarrow> (c # p) # ps))"

fun py_join :: "string \<Rightarrow> string list \<Rightarrow> string" where
  "py_join sep [] = []"
| "py_join sep [p] = p"
| "py_join sep (p # ps) = p @ sep @ py_join sep ps"

text \<open>
  List slicing. A slice bound \<open>i\<close> on a list of length \<open>n\<close> counts from the end when
  negative and is clamped to \<open>0..n\<close>; slicing never raises. In the slice assignment
  \<^verbatim>\<open>xs[i:j] = ys\<close> an upper bound below the lower one is replaced by the lower one.
\<close>

definition slice_index :: "nat \<Rightarrow> int \<Rightarrow> nat" where
  "slice_index n i = (if i < 0 then nat (max (i + int n) 0) else min (nat i) n)"

definition slice_to :: "int \<Rightarrow> 'a list \<Rightarrow> 'a list" where
  "slice_to i xs = take (slice_index (length xs) i) xs"

definition slice_from :: "int \<Rightarrow> 'a list \<Rightarrow> 'a list" where
  "slice_from i xs = drop (slice_index (length xs) i) xs"

definition slice_assign :: "int \<Rightarrow> int \<Rightarrow> 'a list \<Rightarrow> 'a list \<Rightarrow> 'a list" where
  "slice_assign i j ys xs =
     (let lo = slice_index (length xs) i;
          hi = max lo (slice_index (length xs) j)
      in take lo xs @ ys @ drop hi xs)"

section \<open>Data model\<close>

text \<open>
  A colour tuple is (foreground, attribute, background), each possibly \<^verbatim>\<open>None\<close>. An
  element of the parse result is (text, colour tuple, offset); the text of an element of
  the terminal and markup parsers is one character or \<^verbatim>\<open>None\<close>.
\<close>

type_synonym colour_tuple = "int option \<times> int option \<times> int option"

type_synonym element = "char option \<times> colour_tuple \<times> nat"

text \<open>
  Modelled from the spec: the module \<^verbatim>\<open>asciimatics.constants\<close> is not among the sources.
  The spec treats its colour and style codes and the markup attribute table as an injected
  static table and gives no values, so they are a parameter \<open>K\<close> of every function that
  reads them.
\<close>

record constants =
  COLOUR_BLACK :: int
  COLOUR_WHITE :: int
  A_BOLD :: int
  A_NORMAL :: int
  A_REVERSE :: int
  MAPPING_ATTRIBUTES :: "string \<rightharpoonup> int"

text \<open>The fields of \<^verbatim>\<open>Parser\<close>.\<close>

record parser =
  raw_text :: string
  p_attributes :: "colour_tuple option"
  p_cursor :: int
  p_result :: "element list"

section \<open>\<^verbatim>\<open>AnsiTerminalParser\<close>\<close>

text \<open>
  \<^verbatim>\<open>_colour_sequence = re.compile(r"^(\x1B\[([^@-~]*)([@-~]))(.*)")\<close>, applied with
  \<^verbatim>\<open>match\<close>. The parameter field is the longest run of characters outside \<^verbatim>\<open>@\<close>..\<^verbatim>\<open>~\<close>;
  the pattern matches exactly when a character follows that run. Only groups 1 to 3 are read.
\<close>

definition final_byte :: "char \<Rightarrow> bool" where
  "final_byte c = (64 \<le> py_ord c \<and> py_ord c \<le> 126)"

record csi_match =
  group1 :: string
  group2 :: string
  group3 :: char

definition AnsiTerminalParser_colour_sequence :: "string \<Rightarrow> csi_match option" where
  "AnsiTerminalParser_colour_sequence t =
     (case t of
        e # b # rest \<Rightarrow>
          if e = ESC \<and> b = CHR ''[''
          then (case dropWhile (\<lambda>c. \<not> final_byte c) rest of
                  [] \<Rightarrow> None
                | f # _ \<Rightarrow>
                    Some \<lparr>group1 = ESC # CHR ''['' # takeWhile (\<lambda>c. \<not> final_byte c) rest @ [f],
                          group2 = takeWhile (\<lambda>c. \<not> final_byte c) rest,
                          group3 = f\<rparr>)
          else None
      | _ \<Rightarrow> None)"

text \<open>The \<^verbatim>\<open>state\<close> object of \<^verbatim>\<open>AnsiTerminalParser.reset\<close>.\<close>

record state =
  result :: "element list"
  attributes :: colour_tuple
  offset :: nat
  last_offset :: nat
  cursor :: int
  the_text :: string

text \<open>
  The local variables of the SGR parameter loop, together with \<^verbatim>\<open>st.attributes\<close>.
  \<^verbatim>\<open>attribute_index\<close> only ever holds 0 or 2.
\<close>

record sgr =
  in_set_mode :: bool
  in_index_mode :: bool
  in_rgb_mode :: bool
  skip_size :: int
  attribute_index :: nat
  sgr_attributes :: colour_tuple

definition sgr_start :: "colour_tuple \<Rightarrow> sgr" where
  "sgr_start a =
     \<lparr>in_set_mode = False, in_index_mode = False, in_rgb_mode = False,
      skip_size = 0, attribute_index = 0, sgr_attributes = a\<rparr>"

fun attributes_set :: "nat \<Rightarrow> int option \<Rightarrow> colour_tuple \<Rightarrow> colour_tuple" where
  "attributes_set i v (fg, at, bg) =
     (if i = 0 then (v, at, bg) else if i = 1 then (fg, v, bg) else (fg, at, v))"

definition sgr_parameter :: "constants \<Rightarrow> sgr \<Rightarrow> string \<Rightarrow> sgr" where
  "sgr_parameter K s p =
     (let parameter = (case py_int p of Some v \<Rightarrow> v | None \<Rightarrow> 0) in
      if in_set_mode s then
        (if parameter = 5 then s\<lparr>in_index_mode := True\<rparr>
         else if parameter = 2 then s\<lparr>in_rgb_mode := True, skip_size := 3\<rparr>
         else s) \<lparr>in_set_mode := False\<rparr>
      else if in_index_mode s then
        s\<lparr>sgr_attributes := attributes_set (attribute_index s) (Some parameter) (sgr_attributes s),
          in_index_mode := False\<rparr>
      else if in_rgb_mode s then
        (if skip_size s - 1 \<le> 0
         then s\<lparr>skip_size := skip_size s - 1, in_rgb_mode := False\<rparr>
         else s\<lparr>skip_size := skip_size s - 1\<rparr>)
      else if parameter = 0 then
        s\<lparr>sgr_attributes := (Some (COLOUR_WHITE K), Some (A_NORMAL K), Some (COLOUR_BLACK K))\<rparr>
      else if parameter = 1 then
        s\<lparr>sgr_attributes := attributes_set 1 (Some (A_BOLD K)) (sgr_attributes s)\<rparr>
      else if parameter = 2 \<or> parameter = 22 then
        s\<lparr>sgr_attributes := attributes_set 1 (Some (A_NORMAL K)) (sgr_attributes s)\<rparr>
      else if parameter = 7 then
        s\<lparr>sgr_attributes := attributes_set 1 (Some (A_REVERSE K)) (sgr_attributes s)\<rparr>
      else if parameter = 27 then
        s\<lparr>sgr_attributes := attributes_set 1 (Some (A_NORMAL K)) (sgr_attributes s)\<rparr>
      else if 30 \<le> parameter \<and> parameter < 38 then
        s\<lparr>sgr_attributes := attributes_set 0 (Some (parameter - 30)) (sgr_attributes s)\<rparr>
      else if 40 \<le> parameter \<and> parameter < 48 then
        s\<lparr>sgr_attributes := attributes_set 2 (Some (parameter - 40)) (sgr_attributes s)\<rparr>
      else if parameter = 38 then
        s\<lparr>in_set_mode := True, attribute_index := 0\<rparr>
      else if parameter = 48 then
        s\<lparr>in_set_mode := True, attribute_index := 2\<rparr>
      else s)"

text \<open>
  \<^verbatim>\<open>param = 1 if match.group(2) == "" else int(match.group(2))\<close> of the \<^verbatim>\<open>P\<close>, \<^verbatim>\<open>C\<close>
  and \<^verbatim>\<open>D\<close> branches: the conversion is not guarded there.
\<close>

definition count_param :: "string \<Rightarrow> error + int" where
  "count_param g = (if g = [] then Inr 1 else (case py_int g of None \<Rightarrow> Inl ValueError | Some v \<Rightarrow> Inr v))"

text \<open>\<^verbatim>\<open>_handle_escape(st)\<close>: the updated state and the number of characters to skip.\<close>

definition handle_escape :: "constants \<Rightarrow> state \<Rightarrow> error + (state \<times> nat)" where
  "handle_escape K st =
     (case AnsiTerminalParser_colour_sequence (the_text st) of
        None \<Rightarrow> Inr (st, 2)
      | Some m \<Rightarrow>
          if group3 m = CHR ''m'' then
            Inr (st\<lparr>attributes :=
                       sgr_attributes (foldl (sgr_parameter K) (sgr_start (attributes st))
                                             (py_split (CHR '';'') (group2 m)))\<rparr>,
                 length (group1 m))
          else if group3 m = CHR ''K'' then
            Inr (if group2 m = [] \<or> group2 m = ''0'' then
                   st\<lparr>result := slice_to (cursor st) (result st)\<rparr>
                 else if group2 m = ''1'' then
                   st\<lparr>result := replicate (nat (cursor st)) (Some CHR '' '', attributes st, offset st)
                                 @ slice_from (cursor st) (result st)\<rparr>
                 else if group2 m = ''2'' then
                   st\<lparr>result := replicate (nat (cursor st)) (Some CHR '' '', attributes st, offset st)\<rparr>
                 else st,
                 length (group1 m))
          else if group3 m = CHR ''P'' then
            (case count_param (group2 m) of
               Inl e \<Rightarrow> Inl e
             | Inr param \<Rightarrow>
                 Inr (st\<lparr>result := slice_to (cursor st) (result st)
                                      @ slice_from (cursor st + param) (result st)\<rparr>,
                      length (group1 m)))
          else if group3 m = CHR ''C'' then
            (case count_param (group2 m) of
               Inl e \<Rightarrow> Inl e
             | Inr param \<Rightarrow> Inr (st\<lparr>cursor := cursor st + param\<rparr>, length (group1 m)))
          else if group3 m = CHR ''D'' then
            (case count_param (group2 m) of
               Inl e \<Rightarrow> Inl e
             | Inr param \<Rightarrow> Inr (st\<lparr>cursor := cursor st - param\<rparr>, length (group1 m)))
          else Inr (st, length (group1 m)))"

text \<open>
  The two statements that end every iteration of the \<^verbatim>\<open>while\<close> loop:
  \<^verbatim>\<open>state.offset += new_offset; state.text = state.text[new_offset:]\<close>.
\<close>

definition advance :: "nat \<Rightarrow> state \<Rightarrow> state" where
  "advance new_offset st = st\<lparr>offset := offset st + new_offset, the_text := drop new_offset (the_text st)\<rparr>"

text \<open>One iteration of the \<^verbatim>\<open>while\<close> loop, entered with a non-empty text.\<close>

definition loop_body :: "constants \<Rightarrow> state \<Rightarrow> error + state" where
  "loop_body K st =
     (case the_text st of
        [] \<Rightarrow> Inr st
      | c # _ \<Rightarrow>
          if py_ord c > 31 then
            Inr (advance 1
                   (st\<lparr>result := slice_assign (cursor st) (cursor st + 1)
                                    [(Some c, attributes st, last_offset st)] (result st),
                       cursor := cursor st + 1,
                       last_offset := offset st + 1\<rparr>))
          else if py_ord c = 8 then
            Inr (advance 1 (st\<lparr>cursor := max (cursor st - 1) 0\<rparr>))
          else if py_ord c = 13 then
            Inr (advance 1 (st\<lparr>cursor := 0\<rparr>))
          else if py_ord c = 27 then
            (case handle_escape K st of
               Inl e \<Rightarrow> Inl e
             | Inr (st', new_offset) \<Rightarrow> Inr (advance new_offset st'))
          else Inr (advance 1 st))"

lemma handle_escape_skip:
  assumes "handle_escape K st = Inr (st', n)"
  shows "0 < n \<and> the_text st' = the_text st"
  using assms
  by (auto simp: handle_escape_def Let_def count_param_def AnsiTerminalParser_colour_sequence_def
           split: option.splits if_splits sum.splits list.splits)

lemma loop_body_shrinks:
  assumes "the_text st \<noteq> []" and "loop_body K st = Inr st'"
  shows "length (the_text st') < length (the_text st)"
  using assms
  by (auto simp: loop_body_def advance_def split: list.splits if_splits sum.splits
           dest!: handle_escape_skip)

function ansi_loop :: "constants \<Rightarrow> state \<Rightarrow> error + state" where
  "ansi_loop K st =
     (if the_text st = [] then Inr st
      else (case loop_body K st of Inl e \<Rightarrow> Inl e | Inr st' \<Rightarrow> ansi_loop K st'))"
  by pat_completeness auto

termination
  by (relation "measure (\<lambda>(K, st). length (the_text st))") (auto simp: loop_body_shrinks)

declare ansi_loop.simps [simp del]

definition initial_state :: "string \<Rightarrow> colour_tuple option \<Rightarrow> state" where
  "initial_state txt colours =
     \<lparr>result = [],
      attributes = (case colours of Some a \<Rightarrow> a | None \<Rightarrow> (None, None, None)),
      offset = 0, last_offset = 0, cursor = 0, the_text = txt\<rparr>"

text \<open>
  What \<^verbatim>\<open>reset\<close> stores once the loop has ended: the buffer, the reported cursor (computed
  before the closing element is appended) and the closing attribute-only element.
\<close>

definition finish :: "string \<Rightarrow> colour_tuple option \<Rightarrow> state \<Rightarrow> parser" where
  "finish txt colours st =
     \<lparr>raw_text = txt, p_attributes = colours,
      p_cursor = int (length (result st)) - cursor st,
      p_result = result st @
        (if last_offset st \<noteq> offset st then [(None, attributes st, last_offset st)] else [])\<rparr>"

definition AnsiTerminalParser_reset :: "constants \<Rightarrow> string \<Rightarrow> colour_tuple option \<Rightarrow> error + parser" where
  "AnsiTerminalParser_reset K txt colours =
     (case ansi_loop K (initial_state txt colours) of
        Inl e \<Rightarrow> Inl e
      | Inr st \<Rightarrow> Inr (finish txt colours st))"

text \<open>
  \<^verbatim>\<open>normalize\<close>. \<open>sgr_format\<close> is the list \<^verbatim>\<open>format\<close> built when the colour tuple of an
  element differs from the previous one; \<open>normalize_loop\<close> is the \<^verbatim>\<open>for\<close> loop with its
  variables \<^verbatim>\<open>new_value\<close> and \<^verbatim>\<open>attributes\<close>. The loop also overwrites the offset stored in
  each element with the length of the string built before it; those rewritten offsets are
  not part of this model, which gives the returned string and the new \<^verbatim>\<open>_raw_text\<close>.
\<close>

fun sgr_format :: "constants \<Rightarrow> colour_tuple \<Rightarrow> colour_tuple \<Rightarrow> string list" where
  "sgr_format K (fg0, at0, bg0) (fg1, at1, bg1) =
     (if fg0 \<noteq> fg1 then [''38;5;'' @ py_format fg1] else []) @
     (if at0 \<noteq> at1 then
        (if at1 = Some (A_BOLD K) then [''1'']
         else if at1 = Some (A_NORMAL K) then [''2'']
         else if at1 = Some (A_REVERSE K) then [''7'']
         else [])
      else []) @
     (if bg0 \<noteq> bg1 then [''48;5;'' @ py_format bg1] else [])"

fun normalize_loop :: "constants \<Rightarrow> element list \<Rightarrow> string \<Rightarrow> colour_tuple \<Rightarrow> string" where
  "normalize_loop K [] new_value attrs = new_value"
| "normalize_loop K ((glyph, a, off) # rest) new_value attrs =
     (let new_value1 =
            (if attrs \<noteq> a
             then new_value @ ESC # CHR ''['' # py_join '';'' (sgr_format K attrs a) @ ''m''
             else new_value);
          attrs1 = (if attrs \<noteq> a then a else attrs);
          new_value2 = (case glyph of None \<Rightarrow> new_value1 | Some c \<Rightarrow> new_value1 @ [c])
      in normalize_loop K rest new_value2 attrs1)"

definition AnsiTerminalParser_normalize :: "constants \<Rightarrow> parser \<Rightarrow> string \<times> parser" where
  "AnsiTerminalParser_normalize K p =
     (let new_value = normalize_loop K (p_result p) [] (None, None, None);
          new_value1 =
            (if p_cursor p > 0 then new_value @ ESC # CHR ''['' # py_str (p_cursor p) @ ''D''
             else new_value)
      in (new_value1, p\<lparr>raw_text := new_value1\<rparr>))"

section \<open>\<^verbatim>\<open>AsciimaticsParser\<close>\<close>

text \<open>
  Modelled from the spec: the pattern \<^verbatim>\<open>constants.COLOUR_REGEX\<close> is not among the sources.
  The spec gives the tokens \<^verbatim>\<open>${c}\<close>, \<^verbatim>\<open>${c,a}\<close> and \<^verbatim>\<open>${c,a,b}\<close>, matched at the head of
  the remaining text, with \<open>c\<close> and \<open>b\<close> integers and \<open>a\<close> a name, and says that a match
  consumes the token. The source reads group 1 (the text between the braces), groups 2 to 4
  (\<open>c\<close>, \<open>a\<close>, \<open>b\<close> of the three-part token), 5 and 6 (\<open>c\<close>, \<open>a\<close> of the two-part token),
  7 (\<open>c\<close> alone) and 8 (the text after the token). Here an integer is a non-empty run of
  decimal digits and a name a non-empty run of letters and digits.
\<close>

record markup_match =
  mgroup1 :: string
  mgroup2 :: "string option"
  mgroup3 :: "string option"
  mgroup4 :: "string option"
  mgroup5 :: "string option"
  mgroup6 :: "string option"
  mgroup7 :: "string option"
  mgroup8 :: string

definition name_char :: "char \<Rightarrow> bool" where
  "name_char c =
     (is_digit c \<or> (65 \<le> py_ord c \<and> py_ord c \<le> 90) \<or> (97 \<le> py_ord c \<and> py_ord c \<le> 122))"

definition no_groups :: "string \<Rightarrow> string \<Rightarrow> markup_match" where
  "no_groups inner rest =
     \<lparr>mgroup1 = inner, mgroup2 = None, mgroup3 = None, mgroup4 = None,
      mgroup5 = None, mgroup6 = None, mgroup7 = None, mgroup8 = rest\<rparr>"

text \<open>A non-empty run of characters of one class, the character after it, and the rest.\<close>

definition scan_run :: "(char \<Rightarrow> bool) \<Rightarrow> string \<Rightarrow> (string \<times> char \<times> string) option" where
  "scan_run P s =
     (if takeWhile P s = [] then None
      else (case dropWhile P s of [] \<Rightarrow> None | x # r \<Rightarrow> Some (takeWhile P s, x, r)))"

definition AsciimaticsParser_colour_sequence :: "string \<Rightarrow> markup_match option" where
  "AsciimaticsParser_colour_sequence t =
     (case t of
        d # b # r0 \<Rightarrow>
          if d = CHR ''$'' \<and> b = CHR ''{'' then
            (case scan_run is_digit r0 of
               None \<Rightarrow> None
             | Some (c, x, r1) \<Rightarrow>
                 if x = CHR ''}'' then Some ((no_groups c r1)\<lparr>mgroup7 := Some c\<rparr>)
                 else if x = CHR '','' then
                   (case scan_run name_char r1 of
                      None \<Rightarrow> None
                    | Some (a, y, r2) \<Rightarrow>
                        if y = CHR ''}'' then
                          Some ((no_groups (c @ '','' @ a) r2)\<lparr>mgroup5 := Some c, mgroup6 := Some a\<rparr>)
                        else if y = CHR '','' then
                          (case scan_run is_digit r2 of
                             None \<Rightarrow> None
                           | Some (bgd, z, r3) \<Rightarrow>
                               if z = CHR ''}'' then
                                 Some ((no_groups (c @ '','' @ a @ '','' @ bgd) r3)
                                         \<lparr>mgroup2 := Some c, mgroup3 := Some a, mgroup4 := Some bgd\<rparr>)
                               else None)
                        else None)
                 else None)
          else None
      | _ \<Rightarrow> None)"

text \<open>\<^verbatim>\<open>int(match.group(n))\<close> and \<^verbatim>\<open>constants.MAPPING_ATTRIBUTES[match.group(n)]\<close>.\<close>

definition group_int :: "string option \<Rightarrow> error + int" where
  "group_int g =
     (case g of
        None \<Rightarrow> Inl TypeError
      | Some s \<Rightarrow> (case py_int s of None \<Rightarrow> Inl ValueError | Some v \<Rightarrow> Inr v))"

definition group_attribute :: "constants \<Rightarrow> string option \<Rightarrow> error + int" where
  "group_attribute K g =
     (case g of
        None \<Rightarrow> Inl KeyError
      | Some s \<Rightarrow> (case MAPPING_ATTRIBUTES K s of None \<Rightarrow> Inl KeyError | Some v \<Rightarrow> Inr v))"

text \<open>The colour tuple that a matched token assigns to \<^verbatim>\<open>attributes\<close>.\<close>

definition token_attributes :: "constants \<Rightarrow> markup_match \<Rightarrow> error + colour_tuple" where
  "token_attributes K m =
     (if mgroup2 m \<noteq> None then
        (case group_int (mgroup2 m) of
           Inl e \<Rightarrow> Inl e
         | Inr c \<Rightarrow>
             (case group_attribute K (mgroup3 m) of
                Inl e \<Rightarrow> Inl e
              | Inr a \<Rightarrow>
                  (case group_int (mgroup4 m) of
                     Inl e \<Rightarrow> Inl e
                   | Inr b \<Rightarrow> Inr (Some c, Some a, Some b))))
      else if mgroup5 m \<noteq> None then
        (case group_int (mgroup5 m) of
           Inl e \<Rightarrow> Inl e
         | Inr c \<Rightarrow>
             (case group_attribute K (mgroup6 m) of
                Inl e \<Rightarrow> Inl e
              | Inr a \<Rightarrow> Inr (Some c, Some a, None)))
      else
        (case group_int (mgroup7 m) of
           Inl e \<Rightarrow> Inl e
         | Inr c \<Rightarrow> Inr (Some c, Some 0, None)))"

lemma scan_run_Some:
  assumes "scan_run P s = Some (run, x, r)"
  shows "s = run @ x # r \<and> run \<noteq> [] \<and> run = takeWhile P s"
proof -
  have "dropWhile P s = x # r" "run = takeWhile P s" "run \<noteq> []"
    using assms by (auto simp: scan_run_def split: if_splits list.splits)
  then show ?thesis using takeWhile_dropWhile_id [of P s] by simp
qed

lemma colour_sequence_consumes:
  assumes "AsciimaticsParser_colour_sequence t = Some m"
  shows "t = ''${'' @ mgroup1 m @ ''}'' @ mgroup8 m"
  using assms
  by (auto simp: AsciimaticsParser_colour_sequence_def no_groups_def
           split: list.splits if_splits option.splits dest!: scan_run_Some)

lemma colour_sequence_shorter:
  assumes "AsciimaticsParser_colour_sequence t = Some m"
  shows "length (mgroup8 m) < length t"
proof -
  have "length t = length (''${'' @ mgroup1 m @ ''}'' @ mgroup8 m)"
    using colour_sequence_consumes [OF assms] by simp
  then show ?thesis by simp
qed

text \<open>
  The \<^verbatim>\<open>while\<close> loop of \<^verbatim>\<open>AsciimaticsParser.reset\<close>, with its variables \<^verbatim>\<open>text\<close>,
  \<^verbatim>\<open>attributes\<close>, \<^verbatim>\<open>offset\<close>, \<^verbatim>\<open>last_offset\<close> and the list \<^verbatim>\<open>self._result\<close>.
\<close>

function asciimatics_loop ::
  "constants \<Rightarrow> string \<Rightarrow> colour_tuple \<Rightarrow> nat \<Rightarrow> nat \<Rightarrow> element list
     \<Rightarrow> error + (element list \<times> colour_tuple \<times> nat \<times> nat)" where
  "asciimatics_loop K txt attrs off last_off res =
     (case txt of
        [] \<Rightarrow> Inr (res, attrs, off, last_off)
      | c # cs \<Rightarrow>
          (case AsciimaticsParser_colour_sequence txt of
             None \<Rightarrow> asciimatics_loop K cs attrs (off + 1) (off + 1) (res @ [(Some c, attrs, last_off)])
           | Some m \<Rightarrow>
               (case token_attributes K m of
                  Inl e \<Rightarrow> Inl e
                | Inr a \<Rightarrow>
                    asciimatics_loop K (mgroup8 m) a (off + (3 + length (mgroup1 m))) last_off res)))"
  by pat_completeness auto

termination
  by (relation "measure (\<lambda>(K, txt, attrs, off, last_off, res). length txt)")
     (auto dest: colour_sequence_shorter)

declare asciimatics_loop.simps [simp del]

definition AsciimaticsParser_reset :: "constants \<Rightarrow> string \<Rightarrow> colour_tuple option \<Rightarrow> error + parser" where
  "AsciimaticsParser_reset K txt colours =
     (case asciimatics_loop K txt (case colours of Some a \<Rightarrow> a | None \<Rightarrow> (None, None, None)) 0 0 [] of
        Inl e \<Rightarrow> Inl e
      | Inr (res, attrs, off, last_off) \<Rightarrow>
          Inr \<lparr>raw_text = txt, p_attributes = colours,
               p_cursor = int (length res),
               p_result = res @ (if last_off \<noteq> off then [(None, attrs, last_off)] else [])\<rparr>)"

section \<open>A table for evaluating examples\<close>

text \<open>
  Modelled from the spec: the values of \<^verbatim>\<open>asciimatics.constants\<close> are not among the sources
  and the spec gives none. \<open>sample_constants\<close> is one table, used only where a function is
  evaluated on a concrete input; every general theorem below is for an arbitrary table \<open>K\<close>.
\<close>

definition sample_constants :: constants where
  "sample_constants =
     \<lparr>COLOUR_BLACK = 0, COLOUR_WHITE = 7, A_BOLD = 1, A_NORMAL = 2, A_REVERSE = 3,
      MAPPING_ATTRIBUTES = [''1'' \<mapsto> 1, ''2'' \<mapsto> 2, ''3'' \<mapsto> 3]\<rparr>"

text \<open>
  The state of the terminal parser after it has read \<^verbatim>\<open>ESC[3C\<close> from the start of the text
  \<^verbatim>\<open>ESC[3C ESC[K\<close>: an empty buffer, the cursor at 3.
\<close>

definition erase_state :: state where
  "erase_state =
     \<lparr>result = [], attributes = (None, None, None), offset = 4, last_offset = 0,
      cursor = 3, the_text = ESC # ''[K''\<rparr>"

section \<open>Notions used in the statements and proofs\<close>

text \<open>
  \<open>raw_chain txt res nxt\<close>: every element of \<open>res\<close> has an offset below the offset of the
  element after it (\<open>nxt\<close> for the last one), and the character of \<open>txt\<close> just before that
  following offset is the element's own character.
\<close>

fun follow :: "element list \<Rightarrow> nat \<Rightarrow> nat" where
  "follow [] nxt = nxt"
| "follow ((g, a, d) # es) nxt = d"

fun raw_chain :: "string \<Rightarrow> element list \<Rightarrow> nat \<Rightarrow> bool" where
  "raw_chain txt [] nxt = True"
| "raw_chain txt ((g, a, d) # es) nxt =
     (d < follow es nxt \<and> follow es nxt \<le> length txt
      \<and> g = Some (txt ! (follow es nxt - 1)) \<and> raw_chain txt es nxt)"

text \<open>
  The raw position of the first literal character at or after position \<open>d\<close> of a text:
  starting at \<open>d\<close>, every markup token that the pattern matches is skipped by its length,
  3 plus the length of group 1, until the pattern fails; \<^term>\<open>None\<close> when the text ends first.
\<close>

function next_literal :: "string \<Rightarrow> nat \<Rightarrow> nat option" where
  "next_literal txt d =
     (if length txt \<le> d then None
      else (case AsciimaticsParser_colour_sequence (drop d txt) of
              None \<Rightarrow> Some d
            | Some m \<Rightarrow> next_literal txt (d + (3 + length (mgroup1 m)))))"
  by pat_completeness auto
termination
  by (relation "measure (\<lambda>(txt, d). length txt - d)") auto

declare next_literal.simps [simp del]

text \<open>
  \<open>literal_chain txt res nxt\<close>: for every element of \<open>res\<close>, the first literal at or after
  its offset is its own character, and the offset of the element after it (\<open>nxt\<close> for the
  last one) is the position just after that literal.
\<close>

fun literal_chain :: "string \<Rightarrow> element list \<Rightarrow> nat \<Rightarrow> bool" where
  "literal_chain txt [] nxt = True"
| "literal_chain txt ((g, a, d) # es) nxt =
     ((case next_literal txt d of
         None \<Rightarrow> False
       | Some e \<Rightarrow> g = Some (txt ! e) \<and> follow es nxt = Suc e)
      \<and> literal_chain txt es nxt)"

text \<open>The (text, colour tuple) pairs of a parse result, offsets left out.\<close>

definition pairs :: "element list \<Rightarrow> (char option \<times> colour_tuple) list" where
  "pairs es = map (\<lambda>e. (fst e, fst (snd e))) es"

text \<open>
  \<open>encodable K prev a\<close>: every component of \<open>a\<close> that differs from the one of \<open>prev\<close> is
  an integer, and a differing attribute is one of the three that \<^verbatim>\<open>normalize\<close> writes.
  \<open>encodable_chain\<close>: this holds for every element of a result against the element before
  it, and for the first element against \<open>prev\<close>.
\<close>

fun encodable :: "constants \<Rightarrow> colour_tuple \<Rightarrow> colour_tuple \<Rightarrow> bool" where
  "encodable K (fg0, at0, bg0) (fg1, at1, bg1) =
     ((fg0 = fg1 \<or> fg1 \<noteq> None)
      \<and> (at0 = at1 \<or> at1 = Some (A_BOLD K) \<or> at1 = Some (A_NORMAL K) \<or> at1 = Some (A_REVERSE K))
      \<and> (bg0 = bg1 \<or> bg1 \<noteq> None))"

fun encodable_chain :: "constants \<Rightarrow> colour_tuple \<Rightarrow> element list \<Rightarrow> bool" where
  "encodable_chain K prev [] = True"
| "encodable_chain K prev ((g, a, off) # es) = (encodable K prev a \<and> encodable_chain K a es)"

text \<open>The colour tuple of the last element, or \<open>prev\<close> for the empty result.\<close>

definition closing_attributes :: "colour_tuple \<Rightarrow> element list \<Rightarrow> colour_tuple" where
  "closing_attributes prev es = (if es = [] then prev else fst (snd (last es)))"

text \<open>
  A list of SGR parameters that, read from the top level of the parameter loop, returns to
  the top level and has changed the colour tuple by \<open>upd\<close>.
\<close>

definition toplevel :: "sgr \<Rightarrow> bool" where
  "toplevel s = (\<not> in_set_mode s \<and> \<not> in_index_mode s \<and> \<not> in_rgb_mode s)"

definition stage :: "constants \<Rightarrow> string list \<Rightarrow> (colour_tuple \<Rightarrow> colour_tuple) \<Rightarrow> bool" where
  "stage K ps upd =
     (\<forall>s. toplevel s \<longrightarrow>
        toplevel (foldl (sgr_parameter K) s ps)
        \<and> sgr_attributes (foldl (sgr_parameter K) s ps) = upd (sgr_attributes s))"

text \<open>What \<^verbatim>\<open>normalize\<close> writes for one element, given the colour tuple written last.\<close>

definition element_text :: "constants \<Rightarrow> colour_tuple \<Rightarrow> element \<Rightarrow> string" where
  "element_text K attrs e =
     (if attrs \<noteq> fst (snd e)
      then ESC # CHR ''['' # py_join '';'' (sgr_format K attrs (fst (snd e))) @ ''m'' else [])
     @ (case fst e of None \<Rightarrow> [] | Some c \<Rightarrow> [c])"

text \<open>An element with a character above code 31.\<close>

definition printable :: "element \<Rightarrow> bool" where
  "printable e = (case fst e of None \<Rightarrow> False | Some g \<Rightarrow> 31 < py_ord g)"

text \<open>
  The two sides of the round trip on a text: the string that \<^verbatim>\<open>normalize\<close> returns after
  \<^verbatim>\<open>reset\<close>, the (text, colour tuple) pairs of the first result, and the pairs of the result
  of \<^verbatim>\<open>reset\<close> on that string with no initial colours.
\<close>

definition round_trip ::
  "constants \<Rightarrow> string \<Rightarrow> colour_tuple option
     \<Rightarrow> error + (string \<times> (char option \<times> colour_tuple) list \<times> (char option \<times> colour_tuple) list)" where
  "round_trip K txt colours =
     (case AnsiTerminalParser_reset K txt colours of
        Inl e \<Rightarrow> Inl e
      | Inr p \<Rightarrow>
          (case AnsiTerminalParser_reset K (fst (AnsiTerminalParser_normalize K p)) None of
             Inl e \<Rightarrow> Inl e
           | Inr p' \<Rightarrow>
               Inr (fst (AnsiTerminalParser_normalize K p), pairs (p_result p), pairs (p_result p'))))"

section \<open>Facts about the primitives\<close>

lemmas int_defs =
  py_int_def py_strip_def py_isspace_def py_ord_def digits_value_def is_digit_def digit_value_def

lemmas cs_defs = AnsiTerminalParser_colour_sequence_def final_byte_def py_ord_def

lemmas eval_defs =
  loop_body_def handle_escape_def cs_defs advance_def sgr_parameter_def sgr_start_def
  int_defs count_param_def initial_state_def slice_to_def slice_from_def slice_assign_def
  slice_index_def

lemma is_digit_props:
  assumes "is_digit c"
  shows "\<not> py_isspace c" "\<not> final_byte c" "c \<noteq> CHR '';''" "c \<noteq> CHR ''-''" "c \<noteq> CHR ''+''"
  using assms by (auto simp: is_digit_def py_isspace_def final_byte_def py_ord_def Let_def)

lemma digit_char_props:
  assumes "d < 10"
  shows "is_digit (digit_char d)" "digit_value (digit_char d) = d"
  using assms by (auto simp: is_digit_def digit_value_def digit_char_def py_ord_def)

lemma digits_of_nonempty: "digits_of n \<noteq> []"
  by (subst digits_of.simps) simp

lemma digits_of_digits: "c \<in> set (digits_of n) \<Longrightarrow> is_digit c"
proof (induction n arbitrary: c rule: digits_of.induct)
  case (1 n)
  then show ?case
    by (subst (asm) (2) digits_of.simps) (auto simp: digit_char_props split: if_splits)
qed

lemma digits_of_value: "foldl (\<lambda>a d. 10 * a + digit_value d) 0 (digits_of n) = n"
proof (induction n rule: digits_of.induct)
  case (1 n)
  then show ?case
    by (subst digits_of.simps) (auto simp: digit_char_props)
qed

lemma digits_value_digits_of: "digits_value (digits_of n) = Some n"
  by (simp add: digits_value_def digits_of_nonempty digits_of_value list_all_iff digits_of_digits)

lemma dropWhile_hd: "xs \<noteq> [] \<Longrightarrow> \<not> P (hd xs) \<Longrightarrow> dropWhile P xs = xs"
  by (cases xs) auto

lemma py_strip_id:
  assumes "xs \<noteq> []" "\<not> py_isspace (hd xs)" "\<not> py_isspace (last xs)"
  shows "py_strip xs = xs"
proof -
  have a: "dropWhile py_isspace xs = xs" using assms by (simp add: dropWhile_hd)
  have b: "dropWhile py_isspace (rev xs) = rev xs"
    using assms by (intro dropWhile_hd) (auto simp: hd_rev)
  show ?thesis by (simp add: py_strip_def a b)
qed

lemma drop_csi: "drop (3 + length ps) (a # b # ps @ f # rest) = rest"
  by (simp add: numeral_3_eq_3)

lemma digits_of_last: "is_digit (last (digits_of n))" "is_digit (hd (digits_of n))"
  using digits_of_digits [of _ n] digits_of_nonempty [of n] by auto

lemma py_str_nonempty: "py_str v \<noteq> []"
  by (simp add: py_str_def digits_of_nonempty)

lemma py_str_cases: "c \<in> set (py_str v) \<Longrightarrow> c = CHR ''-'' \<or> is_digit c"
  by (auto simp: py_str_def dest: digits_of_digits split: if_splits)

lemma py_str_chars:
  assumes "c \<in> set (py_str v)"
  shows "\<not> final_byte c" "c \<noteq> CHR '';''"
proof -
  have "\<not> final_byte (CHR ''-'')" by (simp add: final_byte_def py_ord_def)
  then show "\<not> final_byte c" "c \<noteq> CHR '';''"
    using py_str_cases [OF assms] is_digit_props(2,3) [of c] by auto
qed

lemma py_strip_py_str: "py_strip (py_str v) = py_str v"
proof (rule py_strip_id)
  have m: "\<not> py_isspace (CHR ''-'')" by (simp add: py_isspace_def py_ord_def Let_def)
  have d: "\<not> py_isspace (hd (digits_of n))" "\<not> py_isspace (last (digits_of n))" for n
    using digits_of_last [of n] is_digit_props(1) by blast+
  show "py_str v \<noteq> []" by (rule py_str_nonempty)
  show "\<not> py_isspace (hd (py_str v))" using m d by (simp add: py_str_def)
  show "\<not> py_isspace (last (py_str v))" using d by (simp add: py_str_def digits_of_nonempty)
qed

lemma py_int_py_str: "py_int (py_str v) = Some v"
proof (cases "v < 0")
  case True
  then show ?thesis
    by (simp add: py_int_def py_strip_py_str) (simp add: py_str_def digits_value_digits_of)
next
  case False
  obtain c cs where c: "digits_of (nat v) = c # cs"
    using digits_of_nonempty [of "nat v"] by (cases "digits_of (nat v)") auto
  then have "is_digit c" using digits_of_digits [of c "nat v"] by simp
  then have "c \<noteq> CHR ''-''" "c \<noteq> CHR ''+''" by (auto dest: is_digit_props)
  then show ?thesis using False c digits_value_digits_of [of "nat v"]
    by (simp add: py_int_def py_strip_py_str) (simp add: py_str_def)
qed

lemma py_split_single: "sep \<notin> set s \<Longrightarrow> py_split sep s = [s]"
  by (induction s) auto

lemma py_split_append: "sep \<notin> set s \<Longrightarrow> py_split sep (s @ sep # t) = s # py_split sep t"
  by (induction s) auto

lemma colour_sequence_csi:
  assumes "\<forall>c \<in> set ps. \<not> final_byte c" "final_byte f"
  shows "AnsiTerminalParser_colour_sequence (ESC # CHR ''['' # ps @ f # rest) =
           Some \<lparr>group1 = ESC # CHR ''['' # ps @ [f], group2 = ps, group3 = f\<rparr>"
  using assms
  by (simp add: AnsiTerminalParser_colour_sequence_def takeWhile_append2 dropWhile_append2)

lemma loop_body_escape:
  "the_text st = ESC # rest \<Longrightarrow>
   loop_body K st = (case handle_escape K st of Inl e \<Rightarrow> Inl e | Inr (st', n) \<Rightarrow> Inr (advance n st'))"
  by (simp add: loop_body_def py_ord_def)

lemma handle_escape_sgr:
  assumes "the_text st = ESC # CHR ''['' # ps @ CHR ''m'' # rest" "\<forall>c \<in> set ps. \<not> final_byte c"
  shows "handle_escape K st =
     Inr (st\<lparr>attributes := sgr_attributes (foldl (sgr_parameter K) (sgr_start (attributes st)) (py_split (CHR '';'') ps))\<rparr>,
          3 + length ps)"
  using assms by (simp add: handle_escape_def colour_sequence_csi final_byte_def py_ord_def)

section \<open>The claims about \<^verbatim>\<open>AnsiTerminalParser.reset\<close>, one loop iteration at a time\<close>

text \<open>
  Claim C2 (totality of parsing: \<^verbatim>\<open>reset\<close> never raises). The \<^verbatim>\<open>P\<close>, \<^verbatim>\<open>C\<close> and \<^verbatim>\<open>D\<close>
  branches of \<^verbatim>\<open>_handle_escape\<close> convert the parameter field with an unguarded \<^verbatim>\<open>int\<close>,
  unlike the SGR branch. On the text \<^verbatim>\<open>ESC[1;5C\<close> the conversion of \<^verbatim>\<open>"1;5"\<close> raises
  \<^verbatim>\<open>ValueError\<close>, whatever the constants table and the initial colours are.
\<close>

theorem reset_raises_on_cursor_forward_with_two_parameters:
  "AnsiTerminalParser_reset K (ESC # ''[1;5C'') colours = Inl ValueError"
  by (simp add: AnsiTerminalParser_reset_def ansi_loop.simps eval_defs)

text \<open>
  Claim C4 (SGR reset). Whatever the state is, when the remaining text starts with
  \<^verbatim>\<open>ESC[0m\<close> one loop iteration sets the colour tuple to
  (\<^verbatim>\<open>COLOUR_WHITE\<close>, \<^verbatim>\<open>A_NORMAL\<close>, \<^verbatim>\<open>COLOUR_BLACK\<close>), skips the four characters, and
  changes nothing else: the buffer receives no element and the cursor stays.
\<close>

theorem sgr_reset_sets_default_triple:
  assumes "the_text st = ESC # ''[0m'' @ rest"
  shows "loop_body K st =
           Inr (st\<lparr>attributes := (Some (COLOUR_WHITE K), Some (A_NORMAL K), Some (COLOUR_BLACK K)),
                   offset := offset st + 4, the_text := rest\<rparr>)"
  using assms by (simp add: eval_defs)

theorem sgr_reset_sets_default_triple_witness:
  "loop_body sample_constants
     \<lparr>result = [(Some CHR ''a'', (Some 3, Some 1, Some 4), 0)],
      attributes = (Some 3, Some 1, Some 4),
      offset = 1, last_offset = 1, cursor = 1, the_text = ESC # ''[0mb''\<rparr>
   = Inr \<lparr>result = [(Some CHR ''a'', (Some 3, Some 1, Some 4), 0)],
          attributes = (Some 7, Some 2, Some 0),
          offset = 5, last_offset = 1, cursor = 1, the_text = ''b''\<rparr>"
  using sgr_reset_sets_default_triple
          [of "\<lparr>result = [(Some CHR ''a'', (Some 3, Some 1, Some 4), 0)],
                attributes = (Some 3, Some 1, Some 4),
                offset = 1, last_offset = 1, cursor = 1, the_text = ESC # ''[0mb''\<rparr>"
              "''b''" sample_constants]
  by (simp add: sample_constants_def)




text \<open>
  Claim C6 (cursor clamping). A backspace (code 8) moves the cursor to
  \<open>max (cursor - 1) 0\<close> and a carriage return (code 13) moves it to 0; either skips one
  character and leaves the buffer and everything else as it was. From a cursor at 0, any
  number \<open>n\<close> of backspaces ends the loop with the cursor still at 0 and the buffer unchanged.
\<close>

theorem backspace_and_carriage_return_clamp_cursor:
  "(the_text st = CHR 0x08 # rest \<longrightarrow>
      loop_body K st =
        Inr (st\<lparr>cursor := max (cursor st - 1) 0, offset := offset st + 1, the_text := rest\<rparr>))
 \<and> (the_text st = CHR 0x0D # rest \<longrightarrow>
      loop_body K st = Inr (st\<lparr>cursor := 0, offset := offset st + 1, the_text := rest\<rparr>))
 \<and> (cursor st = 0 \<and> the_text st = replicate n (CHR 0x08) \<longrightarrow>
      ansi_loop K st = Inr (st\<lparr>offset := offset st + n, the_text := []\<rparr>))"
proof -
  have bs: "loop_body K s =
              Inr (s\<lparr>cursor := max (cursor s - 1) 0, offset := offset s + 1, the_text := r\<rparr>)"
    if "the_text s = CHR 0x08 # r" for s r
    using that by (simp add: loop_body_def advance_def py_ord_def)
  have cr: "loop_body K s = Inr (s\<lparr>cursor := 0, offset := offset s + 1, the_text := r\<rparr>)"
    if "the_text s = CHR 0x0D # r" for s r
    using that by (simp add: loop_body_def advance_def py_ord_def)
  have rep: "cursor s = 0 \<Longrightarrow> the_text s = replicate n (CHR 0x08) \<Longrightarrow>
      ansi_loop K s = Inr (s\<lparr>offset := offset s + n, the_text := []\<rparr>)" for s
  proof (induction n arbitrary: s)
    case 0
    then show ?case by (subst ansi_loop.simps) simp
  next
    case (Suc n)
    let ?s = "s\<lparr>cursor := max (cursor s - 1) 0, offset := offset s + 1,
                 the_text := replicate n (CHR 0x08)\<rparr>"
    have "loop_body K s = Inr ?s" using Suc.prems by (intro bs) simp
    moreover have "ansi_loop K ?s = Inr (?s\<lparr>offset := offset ?s + n, the_text := []\<rparr>)"
      using Suc.prems by (intro Suc.IH) simp_all
    ultimately show ?case using Suc.prems
      by (subst ansi_loop.simps) simp
  qed
  show ?thesis using bs cr rep by blast
qed

theorem backspace_and_carriage_return_clamp_cursor_witness:
  "loop_body sample_constants
     \<lparr>result = [(Some CHR ''a'', (None, None, None), 0)], attributes = (None, None, None),
      offset = 1, last_offset = 1, cursor = 0, the_text = CHR 0x08 # ''b''\<rparr>
   = Inr \<lparr>result = [(Some CHR ''a'', (None, None, None), 0)], attributes = (None, None, None),
          offset = 2, last_offset = 1, cursor = 0, the_text = ''b''\<rparr>
   \<and> loop_body sample_constants
     \<lparr>result = [(Some CHR ''a'', (None, None, None), 0)], attributes = (None, None, None),
      offset = 1, last_offset = 1, cursor = 1, the_text = CHR 0x0D # ''b''\<rparr>
   = Inr \<lparr>result = [(Some CHR ''a'', (None, None, None), 0)], attributes = (None, None, None),
          offset = 2, last_offset = 1, cursor = 0, the_text = ''b''\<rparr>
   \<and> ansi_loop sample_constants
     \<lparr>result = [(Some CHR ''a'', (None, None, None), 0)], attributes = (None, None, None),
      offset = 1, last_offset = 1, cursor = 0, the_text = [CHR 0x08, CHR 0x08, CHR 0x08]\<rparr>
   = Inr \<lparr>result = [(Some CHR ''a'', (None, None, None), 0)], attributes = (None, None, None),
          offset = 4, last_offset = 1, cursor = 0, the_text = []\<rparr>"
  using backspace_and_carriage_return_clamp_cursor
          [of "\<lparr>result = [(Some CHR ''a'', (None, None, None), 0)], attributes = (None, None, None),
                offset = 1, last_offset = 1, cursor = 0, the_text = CHR 0x08 # ''b''\<rparr>"
              "''b''" sample_constants 0]
        backspace_and_carriage_return_clamp_cursor
          [of "\<lparr>result = [(Some CHR ''a'', (None, None, None), 0)], attributes = (None, None, None),
                offset = 1, last_offset = 1, cursor = 1, the_text = CHR 0x0D # ''b''\<rparr>"
              "''b''" sample_constants 0]
        backspace_and_carriage_return_clamp_cursor
          [of "\<lparr>result = [(Some CHR ''a'', (None, None, None), 0)], attributes = (None, None, None),
                offset = 1, last_offset = 1, cursor = 0, the_text = [CHR 0x08, CHR 0x08, CHR 0x08]\<rparr>"
              "[]" sample_constants "Suc (Suc (Suc 0))"]
  by simp

text \<open>
  Claim C7 (erase to end of line), as the claim states it: after \<^verbatim>\<open>ESC[K\<close> the buffer has
  exactly \<open>k\<close> elements for every cursor value \<open>k\<close>. After \<^verbatim>\<open>ESC[3C\<close> on an empty buffer
  the cursor is 3; \<^verbatim>\<open>ESC[K\<close> then leaves a buffer of 0 elements, not 3.
\<close>

theorem erase_in_line_past_the_end_counterexample:
  "loop_body sample_constants (initial_state (ESC # ''[3C'' @ ESC # ''[K'') None) = Inr erase_state
   \<and> cursor erase_state = 3
   \<and> loop_body sample_constants erase_state = Inr (erase_state\<lparr>offset := 7, the_text := []\<rparr>)
   \<and> length (result (erase_state\<lparr>offset := 7, the_text := []\<rparr>)) \<noteq> 3"
  by (simp add: erase_state_def eval_defs)

text \<open>
  Claim C7, amended. \<^verbatim>\<open>ESC[K\<close> and \<^verbatim>\<open>ESC[0K\<close> replace the buffer by the slice
  \<^verbatim>\<open>result[:cursor]\<close> and change nothing else but the offset and the remaining text. For a
  cursor \<open>k\<close> with \<open>0 \<le> k \<le> length\<close> that slice is the first \<open>k\<close> elements, so the buffer
  has exactly \<open>k\<close> elements; for a cursor past the end the buffer is unchanged; for a
  negative cursor the last \<open>- k\<close> elements are dropped.
\<close>

theorem erase_in_line_truncates_at_cursor:
  "(the_text st = ESC # ''[K'' @ rest \<longrightarrow>
      loop_body K st = Inr (st\<lparr>result := slice_to (cursor st) (result st),
                               offset := offset st + 3, the_text := rest\<rparr>))
 \<and> (the_text st = ESC # ''[0K'' @ rest \<longrightarrow>
      loop_body K st = Inr (st\<lparr>result := slice_to (cursor st) (result st),
                               offset := offset st + 4, the_text := rest\<rparr>))
 \<and> (0 \<le> cursor st \<and> cursor st \<le> int (length (result st)) \<longrightarrow>
      slice_to (cursor st) (result st) = take (nat (cursor st)) (result st)
      \<and> int (length (slice_to (cursor st) (result st))) = cursor st)
 \<and> (int (length (result st)) < cursor st \<longrightarrow> slice_to (cursor st) (result st) = result st)
 \<and> (cursor st < 0 \<longrightarrow>
      slice_to (cursor st) (result st) = take (length (result st) - nat (- cursor st)) (result st))"
proof -
  have a: "the_text st = ESC # ''[K'' @ rest \<longrightarrow>
      loop_body K st = Inr (st\<lparr>result := slice_to (cursor st) (result st),
                               offset := offset st + 3, the_text := rest\<rparr>)"
    by (simp add: loop_body_def handle_escape_def cs_defs advance_def)
  have b: "the_text st = ESC # ''[0K'' @ rest \<longrightarrow>
      loop_body K st = Inr (st\<lparr>result := slice_to (cursor st) (result st),
                               offset := offset st + 4, the_text := rest\<rparr>)"
    by (simp add: loop_body_def handle_escape_def cs_defs advance_def)
  have c: "0 \<le> cursor st \<and> cursor st \<le> int (length (result st)) \<longrightarrow>
      slice_to (cursor st) (result st) = take (nat (cursor st)) (result st)
      \<and> int (length (slice_to (cursor st) (result st))) = cursor st"
    by (auto simp: slice_to_def slice_index_def)
  have d: "int (length (result st)) < cursor st \<longrightarrow> slice_to (cursor st) (result st) = result st"
    by (auto simp: slice_to_def slice_index_def)
  have e: "cursor st < 0 \<longrightarrow>
      slice_to (cursor st) (result st) = take (length (result st) - nat (- cursor st)) (result st)"
  proof
    assume neg: "cursor st < 0"
    then have "nat (max (cursor st + int (length (result st))) 0)
                 = length (result st) - nat (- cursor st)"
      by linarith
    then show "slice_to (cursor st) (result st)
                 = take (length (result st) - nat (- cursor st)) (result st)"
      using neg by (simp add: slice_to_def slice_index_def)
  qed
  show ?thesis using a b c d e by blast
qed

theorem erase_in_line_truncates_at_cursor_witness:
  "loop_body sample_constants
     \<lparr>result = [(Some CHR ''a'', (None, None, None), 0), (Some CHR ''b'', (None, None, None), 1)],
      attributes = (None, None, None),
      offset = 3, last_offset = 2, cursor = 1, the_text = ESC # ''[Kc''\<rparr>
   = Inr \<lparr>result = [(Some CHR ''a'', (None, None, None), 0)],
          attributes = (None, None, None),
          offset = 6, last_offset = 2, cursor = 1, the_text = ''c''\<rparr>
   \<and> loop_body sample_constants
     \<lparr>result = [(Some CHR ''a'', (None, None, None), 0), (Some CHR ''b'', (None, None, None), 1)],
      attributes = (None, None, None),
      offset = 3, last_offset = 2, cursor = 1, the_text = ESC # ''[0Kc''\<rparr>
   = Inr \<lparr>result = [(Some CHR ''a'', (None, None, None), 0)],
          attributes = (None, None, None),
          offset = 7, last_offset = 2, cursor = 1, the_text = ''c''\<rparr>"
  using erase_in_line_truncates_at_cursor
          [of "\<lparr>result = [(Some CHR ''a'', (None, None, None), 0), (Some CHR ''b'', (None, None, None), 1)],
                attributes = (None, None, None),
                offset = 3, last_offset = 2, cursor = 1, the_text = ESC # ''[Kc''\<rparr>"
              "''c''" sample_constants]
        erase_in_line_truncates_at_cursor
          [of "\<lparr>result = [(Some CHR ''a'', (None, None, None), 0), (Some CHR ''b'', (None, None, None), 1)],
                attributes = (None, None, None),
                offset = 3, last_offset = 2, cursor = 1, the_text = ESC # ''[0Kc''\<rparr>"
              "''c''" sample_constants]
  by (simp add: slice_to_def slice_index_def)



text \<open>
  Claim C9 (the reported cursor is a distance from the end). Whenever \<^verbatim>\<open>reset\<close> returns, the
  loop has ended in a state \<open>st\<close>, and the stored cursor is the length of the buffer
  accumulated by the loop minus the internal cursor of \<open>st\<close>; it is 0 when the internal
  cursor sits at the end of that buffer. The stored result is that buffer, followed by the
  closing attribute-only element when the offsets differ; the cursor is computed before
  that element is appended.
\<close>

theorem reported_cursor_is_distance_from_end:
  assumes "AnsiTerminalParser_reset K txt colours = Inr p"
  shows "\<exists>st. ansi_loop K (initial_state txt colours) = Inr st
            \<and> p_cursor p = int (length (result st)) - cursor st
            \<and> (cursor st = int (length (result st)) \<longrightarrow> p_cursor p = 0)
            \<and> p_result p = result st @
                 (if last_offset st \<noteq> offset st then [(None, attributes st, last_offset st)] else [])"
  using assms by (auto simp: AnsiTerminalParser_reset_def finish_def split: sum.splits)

theorem reported_cursor_is_distance_from_end_witness:
  "AnsiTerminalParser_reset sample_constants (''ab'' @ [CHR 0x08]) None
     = Inr \<lparr>raw_text = ''ab'' @ [CHR 0x08], p_attributes = None, p_cursor = 1,
            p_result = [(Some CHR ''a'', (None, None, None), 0),
                        (Some CHR ''b'', (None, None, None), 1),
                        (None, (None, None, None), 2)]\<rparr>
   \<and> (\<exists>st. ansi_loop sample_constants (initial_state (''ab'' @ [CHR 0x08]) None) = Inr st
          \<and> (1::int) = int (length (result st)) - cursor st)"
proof -
  have r: "AnsiTerminalParser_reset sample_constants (''ab'' @ [CHR 0x08]) None
     = Inr \<lparr>raw_text = ''ab'' @ [CHR 0x08], p_attributes = None, p_cursor = 1,
            p_result = [(Some CHR ''a'', (None, None, None), 0),
                        (Some CHR ''b'', (None, None, None), 1),
                        (None, (None, None, None), 2)]\<rparr>"
    by (simp add: AnsiTerminalParser_reset_def finish_def ansi_loop.simps eval_defs)
  show ?thesis
    using r reported_cursor_is_distance_from_end [OF r] by auto
qed

text \<open>
  Claim C10 (a printable character written with the cursor past the end). When the internal
  cursor exceeds the buffer length, a printable character (code above 31) is appended at the
  end of the buffer, with no padding element, and the cursor advances by one from its
  past-the-end value; the cursor that \<^verbatim>\<open>reset\<close> would report from the new state is negative.
  The witness is the text \<^verbatim>\<open>ESC[2Ca\<close>, which reports the cursor -2.
\<close>

theorem write_past_end_appends_without_padding:
  assumes "the_text st = c # rest" and "31 < py_ord c"
      and "int (length (result st)) < cursor st"
      and "st' = st\<lparr>result := result st @ [(Some c, attributes st, last_offset st)],
                    cursor := cursor st + 1, last_offset := offset st + 1,
                    offset := offset st + 1, the_text := rest\<rparr>"
  shows "loop_body K st = Inr st' \<and> p_cursor (finish txt colours st') < 0"
  using assms by (simp add: loop_body_def advance_def slice_assign_def slice_index_def finish_def)

theorem write_past_end_appends_without_padding_witness:
  "loop_body sample_constants (initial_state (ESC # ''[2Ca'') None)
     = Inr \<lparr>result = [], attributes = (None, None, None), offset = 4, last_offset = 0,
            cursor = 2, the_text = ''a''\<rparr>
   \<and> loop_body sample_constants
       \<lparr>result = [], attributes = (None, None, None), offset = 4, last_offset = 0,
        cursor = 2, the_text = ''a''\<rparr>
     = Inr \<lparr>result = [(Some CHR ''a'', (None, None, None), 0)], attributes = (None, None, None),
            offset = 5, last_offset = 5, cursor = 3, the_text = []\<rparr>
   \<and> AnsiTerminalParser_reset sample_constants (ESC # ''[2Ca'') None
     = Inr \<lparr>raw_text = ESC # ''[2Ca'', p_attributes = None, p_cursor = - 2,
            p_result = [(Some CHR ''a'', (None, None, None), 0)]\<rparr>"
proof -
  have a: "loop_body sample_constants (initial_state (ESC # ''[2Ca'') None)
     = Inr \<lparr>result = [], attributes = (None, None, None), offset = 4, last_offset = 0,
            cursor = 2, the_text = ''a''\<rparr>"
    by (simp add: eval_defs)
  have b: "AnsiTerminalParser_reset sample_constants (ESC # ''[2Ca'') None
     = Inr \<lparr>raw_text = ESC # ''[2Ca'', p_attributes = None, p_cursor = - 2,
            p_result = [(Some CHR ''a'', (None, None, None), 0)]\<rparr>"
    by (simp add: AnsiTerminalParser_reset_def finish_def ansi_loop.simps eval_defs)
  show ?thesis
    using a b
      write_past_end_appends_without_padding
        [of "\<lparr>result = [], attributes = (None, None, None), offset = 4, last_offset = 0,
              cursor = 2, the_text = ''a''\<rparr>"
            "CHR ''a''" "[]"
            "\<lparr>result = [(Some CHR ''a'', (None, None, None), 0)], attributes = (None, None, None),
              offset = 5, last_offset = 5, cursor = 3, the_text = []\<rparr>"
            sample_constants "ESC # ''[2Ca''" None]
    by (simp add: py_ord_def)
qed

section \<open>Offsets of \<^verbatim>\<open>AsciimaticsParser.reset\<close>\<close>

lemmas markup_defs =
  AsciimaticsParser_reset_def asciimatics_loop.simps AsciimaticsParser_colour_sequence_def
  scan_run_def no_groups_def token_attributes_def group_int_def group_attribute_def
  name_char_def int_defs

lemma follow_snoc: "follow (es @ [(g, a, d)]) nxt = follow es d"
  by (cases es) auto

lemma raw_chain_snoc:
  assumes "raw_chain txt es d" "d < nxt" "nxt \<le> length txt" "g = Some (txt ! (nxt - 1))"
  shows "raw_chain txt (es @ [(g, a, d)]) nxt"
  using assms by (induction es) (auto simp: follow_snoc)

lemma raw_chain_nth:
  assumes "raw_chain txt es nxt" "Suc i < length es"
  shows "snd (snd (es ! i)) < snd (snd (es ! Suc i))
         \<and> snd (snd (es ! Suc i)) \<le> length txt
         \<and> fst (es ! i) = Some (txt ! (snd (snd (es ! Suc i)) - 1))"
  using assms
proof (induction es arbitrary: i)
  case Nil
  then show ?case by simp
next
  case (Cons e es)
  obtain g a d where e: "e = (g, a, d)" by (cases e) auto
  show ?case
  proof (cases i)
    case 0
    then obtain e' es' where es: "es = e' # es'" using Cons.prems(2) by (cases es) auto
    obtain g' a' d' where e': "e' = (g', a', d')" by (cases e') auto
    show ?thesis using Cons.prems(1) 0 by (simp add: e es e')
  next
    case (Suc j)
    then show ?thesis using Cons.IH [of j] Cons.prems by (simp add: e)
  qed
qed

lemma raw_chain_last:
  assumes "raw_chain txt es nxt" "es \<noteq> []"
  shows "snd (snd (last es)) < nxt \<and> nxt \<le> length txt \<and> fst (last es) = Some (txt ! (nxt - 1))"
  using assms
proof (induction es)
  case Nil
  then show ?case by simp
next
  case (Cons e es)
  obtain g a d where e: "e = (g, a, d)" by (cases e) auto
  show ?case using Cons by (cases es) (auto simp: e)
qed

lemma asciimatics_loop_chain:
  assumes "asciimatics_loop K t attrs off last_off res = Inr (res', attrs', off', last')"
      and "t = drop off txt" "off \<le> length txt" "last_off \<le> off"
      and "raw_chain txt res last_off"
      and "res = [] \<longrightarrow> last_off = 0"
      and "res \<noteq> [] \<longrightarrow> snd (snd (hd res)) = 0"
  shows "raw_chain txt res' last' \<and> last' \<le> length txt
         \<and> (res' = [] \<longrightarrow> last' = 0) \<and> (res' \<noteq> [] \<longrightarrow> snd (snd (hd res')) = 0)"
  using assms
proof (induction K t attrs off last_off res rule: asciimatics_loop.induct)
  case (1 K t attrs off last_off res)
  show ?case
  proof (cases t)
    case Nil
    then show ?thesis using "1.prems" by (simp add: asciimatics_loop.simps)
  next
    case (Cons c cs)
    then have e: "drop off txt = c # cs" using "1.prems"(2) by simp
    have lt: "off < length txt" using e by (cases "off < length txt") auto
    have "txt ! off # drop (Suc off) txt = c # cs"
      using Cons_nth_drop_Suc [OF lt] e by simp
    then have c: "txt ! off = c" and cs: "cs = drop (Suc off) txt" by simp_all
    show ?thesis
    proof (cases "AsciimaticsParser_colour_sequence t")
      case None
      have run: "asciimatics_loop K cs attrs (off + 1) (off + 1) (res @ [(Some c, attrs, last_off)])
                   = Inr (res', attrs', off', last')"
        using "1.prems"(1) Cons None by (simp add: asciimatics_loop.simps)
      have ch: "raw_chain txt (res @ [(Some c, attrs, last_off)]) (off + 1)"
        using "1.prems" lt c by (intro raw_chain_snoc) auto
      have hd0: "snd (snd (hd (res @ [(Some c, attrs, last_off)]))) = 0"
        using "1.prems"(6,7) by (cases res) auto
      show ?thesis
        using "1.IH"(1) [OF Cons None run] cs lt ch hd0 by simp
    next
      case (Some m)
      then obtain a where ta: "token_attributes K m = Inr a"
        and run: "asciimatics_loop K (mgroup8 m) a (off + (3 + length (mgroup1 m))) last_off res
                   = Inr (res', attrs', off', last')"
        using "1.prems"(1) Cons by (auto simp: asciimatics_loop.simps split: sum.splits)
      have t: "t = ''${'' @ mgroup1 m @ ''}'' @ mgroup8 m"
        using Some by (rule colour_sequence_consumes)
      have len: "length t = 3 + length (mgroup1 m) + length (mgroup8 m)"
        using arg_cong [OF t, of length] by simp
      have d: "mgroup8 m = drop (3 + length (mgroup1 m)) t"
        using arg_cong [OF t, of "drop (3 + length (mgroup1 m))"] by (simp add: numeral_3_eq_3)
      have lent: "length t = length txt - off" using "1.prems"(2) by simp
      have d2: "mgroup8 m = drop (off + (3 + length (mgroup1 m))) txt"
        using d "1.prems"(2) by (simp add: add.commute)
      have le: "off + (3 + length (mgroup1 m)) \<le> length txt"
        using len lent "1.prems"(3) by linarith
      show ?thesis
        using "1.IH"(2) [OF Cons Some ta run d2 le] "1.prems" by simp
    qed
  qed
qed

lemma example_markup:
  "AsciimaticsParser_reset K ''${1}Hi'' None =
     Inr \<lparr>raw_text = ''${1}Hi'', p_attributes = None, p_cursor = 2,
          p_result = [(Some CHR ''H'', (Some 1, Some 0, None), 0),
                      (Some CHR ''i'', (Some 1, Some 0, None), 5)]\<rparr>"
  by (simp add: markup_defs Let_def)

lemma raw_chain_closing:
  assumes "raw_chain txt res nxt" "Suc i < length (res @ [(g, a, nxt)])"
  shows "snd (snd ((res @ [(g, a, nxt)]) ! i)) < snd (snd ((res @ [(g, a, nxt)]) ! Suc i))
         \<and> snd (snd ((res @ [(g, a, nxt)]) ! Suc i)) \<le> length txt
         \<and> fst ((res @ [(g, a, nxt)]) ! i) = Some (txt ! (snd (snd ((res @ [(g, a, nxt)]) ! Suc i)) - 1))"
proof (cases "Suc i < length res")
  case True
  then show ?thesis using raw_chain_nth [OF assms(1) True] by (simp add: nth_append)
next
  case False
  then have i: "Suc i = length res" and ne: "res \<noteq> []" using assms(2) by auto
  have "length res - 1 = i" using i by simp
  then have l: "res ! i = last res" using ne last_conv_nth [of res] by simp
  show ?thesis using raw_chain_last [OF assms(1) ne] i l by (simp add: nth_append)
qed

lemma increasing_offsets_bound:
  fixes es :: "element list"
  assumes "es \<noteq> [] \<longrightarrow> snd (snd (es ! 0)) = 0"
      and "\<forall>i. Suc i < length es \<longrightarrow> snd (snd (es ! i)) < snd (snd (es ! Suc i))"
      and "i < length es"
  shows "i \<le> snd (snd (es ! i))"
  using assms(3)
proof (induction i)
  case 0
  then show ?case by simp
next
  case (Suc i)
  then have "i \<le> snd (snd (es ! i))" by simp
  moreover have "snd (snd (es ! i)) < snd (snd (es ! Suc i))" using assms(2) Suc.prems by blast
  ultimately show ?case by linarith
qed

lemma literal_chain_snoc:
  assumes "literal_chain txt es d" "next_literal txt d = Some e" "g = Some (txt ! e)" "nxt = Suc e"
  shows "literal_chain txt (es @ [(g, a, d)]) nxt"
  using assms by (induction es) (auto simp: follow_snoc split: option.splits)

lemma literal_chain_nth:
  assumes "literal_chain txt es nxt" "i < length es"
  shows "\<exists>e. next_literal txt (snd (snd (es ! i))) = Some e \<and> fst (es ! i) = Some (txt ! e)
             \<and> (if Suc i < length es then snd (snd (es ! Suc i)) else nxt) = Suc e"
  using assms
proof (induction es arbitrary: i)
  case Nil
  then show ?case by simp
next
  case (Cons x es)
  obtain g a d where x: "x = (g, a, d)" by (cases x) auto
  show ?case
  proof (cases i)
    case 0
    have f: "follow es nxt = (if Suc 0 < length (x # es) then snd (snd ((x # es) ! Suc 0)) else nxt)"
      by (cases es) auto
    show ?thesis using Cons.prems(1) f 0 by (auto simp: x split: option.splits)
  next
    case (Suc j)
    then show ?thesis using Cons.IH [of j] Cons.prems by (auto simp: x split: if_splits)
  qed
qed

lemma next_literal_end: "length txt \<le> d \<Longrightarrow> next_literal txt d = None"
  by (subst next_literal.simps) simp

lemma next_literal_here:
  "d < length txt \<Longrightarrow> AsciimaticsParser_colour_sequence (drop d txt) = None
     \<Longrightarrow> next_literal txt d = Some d"
  by (subst next_literal.simps) simp

lemma next_literal_skip:
  "d < length txt \<Longrightarrow> AsciimaticsParser_colour_sequence (drop d txt) = Some m
     \<Longrightarrow> next_literal txt d = next_literal txt (d + (3 + length (mgroup1 m)))"
  by (subst next_literal.simps) simp

lemma asciimatics_loop_literals:
  assumes "asciimatics_loop K t attrs off last_off res = Inr (res', attrs', off', last')"
      and "t = drop off txt" "off \<le> length txt" "last_off \<le> off"
      and "literal_chain txt res last_off"
      and "next_literal txt last_off = next_literal txt off"
  shows "literal_chain txt res' last' \<and> off' = length txt \<and> last' \<le> off'
         \<and> next_literal txt last' = None"
  using assms
proof (induction K t attrs off last_off res rule: asciimatics_loop.induct)
  case (1 K t attrs off last_off res)
  show ?case
  proof (cases t)
    case Nil
    then have "off = length txt" using "1.prems"(2,3) by simp
    then show ?thesis
      using "1.prems" Nil by (simp add: asciimatics_loop.simps next_literal_end)
  next
    case (Cons c cs)
    then have e: "drop off txt = c # cs" using "1.prems"(2) by simp
    have lt: "off < length txt" using e by (cases "off < length txt") auto
    have "txt ! off # drop (Suc off) txt = c # cs"
      using Cons_nth_drop_Suc [OF lt] e by simp
    then have c: "txt ! off = c" and cs: "cs = drop (Suc off) txt" by simp_all
    show ?thesis
    proof (cases "AsciimaticsParser_colour_sequence t")
      case None
      have run: "asciimatics_loop K cs attrs (off + 1) (off + 1) (res @ [(Some c, attrs, last_off)])
                   = Inr (res', attrs', off', last')"
        using "1.prems"(1) Cons None by (simp add: asciimatics_loop.simps)
      have "next_literal txt off = Some off"
        using lt None "1.prems"(2) by (intro next_literal_here) simp_all
      then have nl: "next_literal txt last_off = Some off" using "1.prems"(6) by simp
      have ch: "literal_chain txt (res @ [(Some c, attrs, last_off)]) (off + 1)"
        using "1.prems"(5) nl c by (intro literal_chain_snoc) simp_all
      show ?thesis
        using "1.IH"(1) [OF Cons None run] cs lt ch by simp
    next
      case (Some m)
      then obtain a where ta: "token_attributes K m = Inr a"
        and run: "asciimatics_loop K (mgroup8 m) a (off + (3 + length (mgroup1 m))) last_off res
                   = Inr (res', attrs', off', last')"
        using "1.prems"(1) Cons by (auto simp: asciimatics_loop.simps split: sum.splits)
      have t: "t = ''${'' @ mgroup1 m @ ''}'' @ mgroup8 m"
        using Some by (rule colour_sequence_consumes)
      have len: "length t = 3 + length (mgroup1 m) + length (mgroup8 m)"
        using arg_cong [OF t, of length] by simp
      have d: "mgroup8 m = drop (3 + length (mgroup1 m)) t"
        using arg_cong [OF t, of "drop (3 + length (mgroup1 m))"] by (simp add: numeral_3_eq_3)
      have lent: "length t = length txt - off" using "1.prems"(2) by simp
      have d2: "mgroup8 m = drop (off + (3 + length (mgroup1 m))) txt"
        using d "1.prems"(2) by (simp add: add.commute)
      have le: "off + (3 + length (mgroup1 m)) \<le> length txt"
        using len lent "1.prems"(3) by linarith
      have "next_literal txt off = next_literal txt (off + (3 + length (mgroup1 m)))"
        using lt Some "1.prems"(2) by (intro next_literal_skip) simp_all
      then have nl: "next_literal txt last_off = next_literal txt (off + (3 + length (mgroup1 m)))"
        using "1.prems"(6) by simp
      show ?thesis
        using "1.IH"(2) [OF Cons Some ta run d2 le _ "1.prems"(5) nl] "1.prems"(4) by simp
    qed
  qed
qed

lemma example_markup_repeated:
  "AsciimaticsParser_reset K ''aa${1}a'' None =
     Inr \<lparr>raw_text = ''aa${1}a'', p_attributes = None, p_cursor = 3,
          p_result = [(Some CHR ''a'', (None, None, None), 0),
                      (Some CHR ''a'', (None, None, None), 1),
                      (Some CHR ''a'', (Some 1, Some 0, None), 2)]\<rparr>"
  by (simp add: markup_defs Let_def)

text \<open>
  Claim C3 (markup offsets track the rendered position), as the claim states it: every
  element's offset equals its index in the rendered text, so \<^verbatim>\<open>${1}Hi\<close> yields \<open>H\<close> at 0
  and \<open>i\<close> at 1. The source adds the length of a matched token to \<^verbatim>\<open>offset\<close>, and the
  element for \<open>i\<close>, whose index is 1, carries the offset 5.
\<close>

theorem markup_offset_is_not_rendered_index_counterexample:
  "AsciimaticsParser_reset sample_constants ''${1}Hi'' None =
     Inr \<lparr>raw_text = ''${1}Hi'', p_attributes = None, p_cursor = 2,
          p_result = [(Some CHR ''H'', (Some 1, Some 0, None), 0),
                      (Some CHR ''i'', (Some 1, Some 0, None), 5)]\<rparr>
   \<and> snd (snd ([(Some CHR ''H'', (Some 1, Some 0, None), 0),
                 (Some CHR ''i'', (Some 1, Some 0, None), 5 :: nat)] ! 1)) \<noteq> 1"
  by (simp add: example_markup)

text \<open>
  Claim C3, amended. The offsets of the markup parser are positions in the raw text: a
  token advances the offset counter by its length, 3 plus the length of group 1, a literal
  character by one, and an element carries the value the counter had just after the
  previous literal character. Exactly, for every text and every initial colours on which
  \<^verbatim>\<open>reset\<close> returns: the first element has offset 0; for an element with a character at
  offset \<open>d\<close>, skipping from the raw position \<open>d\<close> the tokens that the pattern matches
  leads to a literal at a raw position \<open>e\<close>, that literal is the element's character, and
  the offset of the next element is \<open>e + 1\<close> (the text ends at \<open>e + 1\<close> if there is no
  next element); an element without a character is the last one, and only tokens follow
  its offset. Hence offsets are strictly increasing, the raw character just before an
  offset is the character of the element before, and every offset is at least the
  element's index in the rendered text. In particular \<^verbatim>\<open>${1}Hi\<close> with no initial colours
  yields exactly \<open>H\<close> with (1, 0, None) at offset 0 and \<open>i\<close> with (1, 0, None) at offset 5.
\<close>

theorem markup_offsets_are_raw_positions:
  assumes "AsciimaticsParser_reset K txt colours = Inr p"
  shows "(p_result p \<noteq> [] \<longrightarrow> snd (snd (p_result p ! 0)) = 0)
       \<and> (\<forall>i g. i < length (p_result p) \<and> fst (p_result p ! i) = Some g \<longrightarrow>
              (\<exists>e. next_literal txt (snd (snd (p_result p ! i))) = Some e \<and> txt ! e = g
                 \<and> (if Suc i < length (p_result p) then snd (snd (p_result p ! Suc i))
                     else length txt) = Suc e))
       \<and> (\<forall>i. i < length (p_result p) \<and> fst (p_result p ! i) = None \<longrightarrow>
              Suc i = length (p_result p)
            \<and> next_literal txt (snd (snd (p_result p ! i))) = None
            \<and> snd (snd (p_result p ! i)) < length txt)
       \<and> (\<forall>i. Suc i < length (p_result p) \<longrightarrow>
              snd (snd (p_result p ! i)) < snd (snd (p_result p ! Suc i))
            \<and> snd (snd (p_result p ! Suc i)) \<le> length txt
            \<and> fst (p_result p ! i) = Some (txt ! (snd (snd (p_result p ! Suc i)) - 1)))
       \<and> (\<forall>i. i < length (p_result p) \<longrightarrow> i \<le> snd (snd (p_result p ! i)))
       \<and> AsciimaticsParser_reset K ''${1}Hi'' None =
           Inr \<lparr>raw_text = ''${1}Hi'', p_attributes = None, p_cursor = 2,
                p_result = [(Some CHR ''H'', (Some 1, Some 0, None), 0),
                            (Some CHR ''i'', (Some 1, Some 0, None), 5)]\<rparr>"
proof -
  let ?a0 = "case colours of Some a \<Rightarrow> a | None \<Rightarrow> (None, None, None)"
  obtain res attrs off last' where
    run: "asciimatics_loop K txt ?a0 0 0 [] = Inr (res, attrs, off, last')"
    and pr: "p_result p = res @ (if last' \<noteq> off then [(None, attrs, last')] else [])"
    using assms by (auto simp: AsciimaticsParser_reset_def split: sum.splits)
  have inv: "raw_chain txt res last' \<and> last' \<le> length txt
         \<and> (res = [] \<longrightarrow> last' = 0) \<and> (res \<noteq> [] \<longrightarrow> snd (snd (hd res)) = 0)"
    using run by (rule asciimatics_loop_chain) simp_all
  have lit: "literal_chain txt res last' \<and> off = length txt \<and> last' \<le> off
         \<and> next_literal txt last' = None"
    using run by (rule asciimatics_loop_literals) simp_all
  have first: "p_result p \<noteq> [] \<longrightarrow> snd (snd (p_result p ! 0)) = 0"
    using inv pr by (cases res) auto
  have el: "\<exists>e. next_literal txt (snd (snd (res ! i))) = Some e \<and> fst (res ! i) = Some (txt ! e)
             \<and> (if Suc i < length res then snd (snd (res ! Suc i)) else last') = Suc e"
    if "i < length res" for i
    using literal_chain_nth [OF conjunct1 [OF lit] that] .
  have glyph: "\<forall>i g. i < length (p_result p) \<and> fst (p_result p ! i) = Some g \<longrightarrow>
              (\<exists>e. next_literal txt (snd (snd (p_result p ! i))) = Some e \<and> txt ! e = g
                 \<and> (if Suc i < length (p_result p) then snd (snd (p_result p ! Suc i))
                     else length txt) = Suc e)"
  proof (intro allI impI)
    fix i g
    assume a: "i < length (p_result p) \<and> fst (p_result p ! i) = Some g"
    have i: "i < length res"
    proof (rule ccontr)
      assume "\<not> i < length res"
      then have "i = length res" "last' \<noteq> off" using a pr by (auto split: if_splits)
      then show False using a pr by simp
    qed
    then have same: "p_result p ! i = res ! i" using pr by (simp add: nth_append)
    obtain e where e: "next_literal txt (snd (snd (res ! i))) = Some e"
      "fst (res ! i) = Some (txt ! e)"
      "(if Suc i < length res then snd (snd (res ! Suc i)) else last') = Suc e"
      using el [OF i] by blast
    have nx: "(if Suc i < length (p_result p) then snd (snd (p_result p ! Suc i)) else length txt)
                = (if Suc i < length res then snd (snd (res ! Suc i)) else last')"
    proof (cases "Suc i < length res")
      case True
      then show ?thesis using pr by (simp add: nth_append)
    next
      case False
      then have "Suc i = length res" using i by simp
      then show ?thesis using pr lit by (auto simp: nth_append)
    qed
    show "\<exists>e. next_literal txt (snd (snd (p_result p ! i))) = Some e \<and> txt ! e = g
                 \<and> (if Suc i < length (p_result p) then snd (snd (p_result p ! Suc i))
                     else length txt) = Suc e"
      using e a same nx by (intro exI [of _ e]) simp
  qed
  have closing: "\<forall>i. i < length (p_result p) \<and> fst (p_result p ! i) = None \<longrightarrow>
              Suc i = length (p_result p)
            \<and> next_literal txt (snd (snd (p_result p ! i))) = None
            \<and> snd (snd (p_result p ! i)) < length txt"
  proof (intro allI impI)
    fix i
    assume a: "i < length (p_result p) \<and> fst (p_result p ! i) = None"
    have "\<not> i < length res"
    proof
      assume i: "i < length res"
      then have "p_result p ! i = res ! i" using pr by (simp add: nth_append)
      then show False using el [OF i] a by auto
    qed
    then have i: "i = length res" "last' \<noteq> off" using a pr by (auto split: if_splits)
    then have "p_result p ! i = (None, attrs, last')" "length (p_result p) = Suc (length res)"
      using pr by simp_all
    then show "Suc i = length (p_result p)
            \<and> next_literal txt (snd (snd (p_result p ! i))) = None
            \<and> snd (snd (p_result p ! i)) < length txt"
      using i lit by simp
  qed
  have step: "\<forall>i. Suc i < length (p_result p) \<longrightarrow>
              snd (snd (p_result p ! i)) < snd (snd (p_result p ! Suc i))
            \<and> snd (snd (p_result p ! Suc i)) \<le> length txt
            \<and> fst (p_result p ! i) = Some (txt ! (snd (snd (p_result p ! Suc i)) - 1))"
  proof (cases "last' \<noteq> off")
    case True
    then have "p_result p = res @ [(None, attrs, last')]" using pr by simp
    then show ?thesis using raw_chain_closing [OF conjunct1 [OF inv]] by simp
  next
    case False
    then have "p_result p = res" using pr by simp
    then show ?thesis using raw_chain_nth [OF conjunct1 [OF inv]] by simp
  qed
  have bound: "\<forall>i. i < length (p_result p) \<longrightarrow> i \<le> snd (snd (p_result p ! i))"
    using increasing_offsets_bound [of "p_result p"] first step by blast
  show ?thesis using first glyph closing step bound example_markup [of K] by blast
qed

theorem markup_offsets_are_raw_positions_witness:
  "AsciimaticsParser_reset sample_constants ''aa${1}a${2,1}'' None =
     Inr \<lparr>raw_text = ''aa${1}a${2,1}'', p_attributes = None, p_cursor = 3,
          p_result = [(Some CHR ''a'', (None, None, None), 0),
                      (Some CHR ''a'', (None, None, None), 1),
                      (Some CHR ''a'', (Some 1, Some 0, None), 2),
                      (None, (Some 2, Some 1, None), 7)]\<rparr>
   \<and> next_literal ''aa${1}a${2,1}'' 0 = Some 0 \<and> next_literal ''aa${1}a${2,1}'' 1 = Some 1
   \<and> next_literal ''aa${1}a${2,1}'' 2 = Some 6 \<and> next_literal ''aa${1}a${2,1}'' 7 = None
   \<and> ''aa${1}a${2,1}'' ! 6 = CHR ''a'' \<and> length ''aa${1}a${2,1}'' = 13"
proof -
  have r: "AsciimaticsParser_reset sample_constants ''aa${1}a${2,1}'' None =
     Inr \<lparr>raw_text = ''aa${1}a${2,1}'', p_attributes = None, p_cursor = 3,
          p_result = [(Some CHR ''a'', (None, None, None), 0),
                      (Some CHR ''a'', (None, None, None), 1),
                      (Some CHR ''a'', (Some 1, Some 0, None), 2),
                      (None, (Some 2, Some 1, None), 7)]\<rparr>"
    by code_simp
  have n: "next_literal ''aa${1}a${2,1}'' 0 = Some 0" "next_literal ''aa${1}a${2,1}'' 1 = Some 1"
    "next_literal ''aa${1}a${2,1}'' 2 = Some 6" "next_literal ''aa${1}a${2,1}'' 7 = None"
    by code_simp+
  show ?thesis
    using r n conjunct1 [OF markup_offsets_are_raw_positions [OF r]] by simp
qed

section \<open>Reading back the output of \<^verbatim>\<open>normalize\<close>\<close>

lemma py_split_nonempty: "py_split sep s \<noteq> []"
  by (induction s) (auto split: list.splits)

lemma semicolon_notin_py_str [simp]: "CHR '';'' \<notin> set (py_str v)"
  using py_str_chars(2) by blast

lemma py_str_not_final [simp]: "c \<in> set (py_str v) \<Longrightarrow> \<not> final_byte c"
  using py_str_chars(1) by blast

lemma py_int_small:
  "py_int ''38'' = Some 38" "py_int ''48'' = Some 48" "py_int ''5'' = Some 5"
  "py_int ''1'' = Some 1" "py_int ''2'' = Some 2" "py_int ''7'' = Some 7"
  by (simp_all add: int_defs)

lemma py_split_app: "py_split sep (a @ sep # b) = py_split sep a @ py_split sep b"
proof (induction a)
  case Nil
  then show ?case by simp
next
  case (Cons c a)
  obtain p ps where s: "py_split sep a = p # ps"
    using py_split_nonempty [of sep a] by (cases "py_split sep a") auto
  show ?case using Cons s by simp
qed

lemma py_split_join:
  "parts \<noteq> [] \<Longrightarrow> py_split sep (py_join [sep] parts) = concat (map (py_split sep) parts)"
proof (induction "[sep]" parts rule: py_join.induct)
  case 1
  then show ?case by simp
next
  case (2 p)
  then show ?case by simp
next
  case (3 p v va)
  then show ?case using py_split_app [of sep p "py_join [sep] (v # va)"] by simp
qed

lemma set_py_join: "set (py_join sep parts) \<subseteq> set sep \<union> (\<Union>p \<in> set parts. set p)"
  by (induction sep parts rule: py_join.induct) auto

lemma stage_nil: "stage K [] (\<lambda>t. t)"
  by (simp add: stage_def)

lemma stage_append: "stage K ps u \<Longrightarrow> stage K qs v \<Longrightarrow> stage K (ps @ qs) (\<lambda>t. v (u t))"
  by (simp add: stage_def)

lemma stage_foreground: "stage K [''38'', ''5'', py_str f] (attributes_set 0 (Some f))"
  by (simp add: stage_def toplevel_def sgr_parameter_def py_int_small py_int_py_str)

lemma stage_background: "stage K [''48'', ''5'', py_str b] (attributes_set 2 (Some b))"
  by (simp add: stage_def toplevel_def sgr_parameter_def py_int_small py_int_py_str)

lemma stage_bold: "stage K [''1''] (attributes_set 1 (Some (A_BOLD K)))"
  by (simp add: stage_def toplevel_def sgr_parameter_def py_int_small)

lemma stage_normal: "stage K [''2''] (attributes_set 1 (Some (A_NORMAL K)))"
  by (simp add: stage_def toplevel_def sgr_parameter_def py_int_small)

lemma stage_reverse: "stage K [''7''] (attributes_set 1 (Some (A_REVERSE K)))"
  by (simp add: stage_def toplevel_def sgr_parameter_def py_int_small)

lemma split_colour_chunk:
  "py_split (CHR '';'') (''38;5;'' @ py_str f) = [''38'', ''5'', py_str f]"
  "py_split (CHR '';'') (''48;5;'' @ py_str f) = [''48'', ''5'', py_str f]"
  by (simp_all add: py_split_single)

lemma sgr_format_stage:
  assumes "encodable K (f0, s0, b0) (f1, s1, b1)"
  shows "\<exists>u. stage K (concat (map (py_split (CHR '';'')) (sgr_format K (f0, s0, b0) (f1, s1, b1)))) u
             \<and> u (f0, s0, b0) = (f1, s1, b1)"
proof -
  let ?F = "if f0 \<noteq> f1 then [''38;5;'' @ py_format f1] else []"
  let ?S = "if s0 \<noteq> s1 then
              (if s1 = Some (A_BOLD K) then [''1'']
               else if s1 = Some (A_NORMAL K) then [''2'']
               else if s1 = Some (A_REVERSE K) then [''7''] else [])
            else []"
  let ?B = "if b0 \<noteq> b1 then [''48;5;'' @ py_format b1] else []"
  let ?sp = "\<lambda>l. concat (map (py_split (CHR '';'')) l)"
  have F: "\<exists>u. stage K (?sp ?F) u \<and> (\<forall>s b. u (f0, s, b) = (f1, s, b))"
  proof (cases "f0 = f1")
    case True
    then show ?thesis using stage_nil [of K] by auto
  next
    case False
    then obtain f where "f1 = Some f" using assms by auto
    then show ?thesis
      using False stage_foreground [of K f]
      by (auto simp: py_format_def py_split_single intro!: exI [of _ "attributes_set 0 (Some f)"])
  qed
  have S: "\<exists>u. stage K (?sp ?S) u \<and> (\<forall>f b. u (f, s0, b) = (f, s1, b))"
  proof (cases "s0 = s1")
    case True
    then show ?thesis using stage_nil [of K] by auto
  next
    case False
    then have "s1 = Some (A_BOLD K) \<or> s1 = Some (A_NORMAL K) \<or> s1 = Some (A_REVERSE K)"
      using assms by auto
    then consider (bold) "s1 = Some (A_BOLD K)"
      | (normal) "s1 \<noteq> Some (A_BOLD K)" "s1 = Some (A_NORMAL K)"
      | (reverse) "s1 \<noteq> Some (A_BOLD K)" "s1 \<noteq> Some (A_NORMAL K)" "s1 = Some (A_REVERSE K)"
      by blast
    then show ?thesis
    proof cases
      case bold
      have "?sp ?S = [''1'']" using False bold by simp
      then show ?thesis
        using stage_bold [of K] bold
        by (intro exI [of _ "attributes_set 1 (Some (A_BOLD K))"]) simp
    next
      case normal
      have "?sp ?S = [''2'']" using False normal by simp
      then show ?thesis
        using stage_normal [of K] normal
        by (intro exI [of _ "attributes_set 1 (Some (A_NORMAL K))"]) simp
    next
      case reverse
      have "?sp ?S = [''7'']" using False reverse by simp
      then show ?thesis
        using stage_reverse [of K] reverse
        by (intro exI [of _ "attributes_set 1 (Some (A_REVERSE K))"]) simp
    qed
  qed
  have B: "\<exists>u. stage K (?sp ?B) u \<and> (\<forall>f s. u (f, s, b0) = (f, s, b1))"
  proof (cases "b0 = b1")
    case True
    then show ?thesis using stage_nil [of K] by auto
  next
    case False
    then obtain b where "b1 = Some b" using assms by auto
    then show ?thesis
      using False stage_background [of K b]
      by (auto simp: py_format_def py_split_single intro!: exI [of _ "attributes_set 2 (Some b)"])
  qed
  obtain uF uS uB where u:
    "stage K (?sp ?F) uF" "\<forall>s b. uF (f0, s, b) = (f1, s, b)"
    "stage K (?sp ?S) uS" "\<forall>f b. uS (f, s0, b) = (f, s1, b)"
    "stage K (?sp ?B) uB" "\<forall>f s. uB (f, s, b0) = (f, s, b1)"
    using F S B by blast
  have e: "?sp (sgr_format K (f0, s0, b0) (f1, s1, b1)) = ?sp ?F @ ?sp ?S @ ?sp ?B"
    by (simp only: sgr_format.simps map_append concat_append)
  have "stage K (?sp ?F @ ?sp ?S @ ?sp ?B) (\<lambda>t. uB (uS (uF t)))"
    using stage_append [OF u(1) stage_append [OF u(3) u(5)]] by simp
  moreover have "uB (uS (uF (f0, s0, b0))) = (f1, s1, b1)" using u by simp
  ultimately show ?thesis unfolding e by blast
qed

lemma sgr_format_nonempty:
  assumes "encodable K prev a" "prev \<noteq> a"
  shows "sgr_format K prev a \<noteq> []"
proof -
  obtain f0 s0 b0 f1 s1 b1 where p: "prev = (f0, s0, b0)" "a = (f1, s1, b1)"
    by (cases prev, cases a) auto
  show ?thesis using assms unfolding p by auto
qed

lemma sgr_format_not_final:
  assumes "encodable K prev a" "c \<in> set (py_join '';'' (sgr_format K prev a))"
  shows "\<not> final_byte c"
proof -
  obtain f0 s0 b0 f1 s1 b1 where p: "prev = (f0, s0, b0)" "a = (f1, s1, b1)"
    by (cases prev, cases a) auto
  have "c \<in> set '';'' \<union> (\<Union>p \<in> set (sgr_format K prev a). set p)"
    using assms(2) set_py_join by blast
  then have "c \<in> set ''38;5;48;127'' \<or> (\<exists>v. c \<in> set (py_str v))"
    using assms(1) unfolding p by (auto simp: py_format_def split: if_splits)
  moreover have "\<not> final_byte c" if "c \<in> set ''38;5;48;127''"
    using that by (auto simp: final_byte_def py_ord_def)
  moreover have "\<not> final_byte c" if "\<exists>v. c \<in> set (py_str v)"
    using that py_str_chars(1) by blast
  ultimately show ?thesis by blast
qed

lemma sgr_format_reads_back:
  assumes "encodable K prev a" "prev \<noteq> a"
  shows "sgr_attributes (foldl (sgr_parameter K) (sgr_start prev)
            (py_split (CHR '';'') (py_join '';'' (sgr_format K prev a)))) = a"
proof -
  obtain f0 s0 b0 f1 s1 b1 where p: "prev = (f0, s0, b0)" "a = (f1, s1, b1)"
    by (cases prev, cases a) auto
  obtain u where u: "stage K (concat (map (py_split (CHR '';'')) (sgr_format K prev a))) u"
    "u prev = a"
    using sgr_format_stage [of K f0 s0 b0 f1 s1 b1] assms(1) unfolding p by blast
  have "py_split (CHR '';'') (py_join '';'' (sgr_format K prev a))
          = concat (map (py_split (CHR '';'')) (sgr_format K prev a))"
    using sgr_format_nonempty [OF assms] by (rule py_split_join)
  moreover have "toplevel (sgr_start prev)" "sgr_attributes (sgr_start prev) = prev"
    by (simp_all add: toplevel_def sgr_start_def)
  ultimately show ?thesis using u by (simp add: stage_def)
qed

lemma ansi_loop_step:
  "the_text st \<noteq> [] \<Longrightarrow> loop_body K st = Inr st1 \<Longrightarrow> ansi_loop K st = ansi_loop K st1"
  by (subst ansi_loop.simps) simp

lemma ansi_loop_done: "the_text st = [] \<Longrightarrow> ansi_loop K st = Inr st"
  by (subst ansi_loop.simps) simp

lemma loop_body_sgr_format:
  assumes "the_text st = ESC # CHR ''['' # py_join '';'' (sgr_format K (attributes st) a) @ CHR ''m'' # rest"
      and "encodable K (attributes st) a" "attributes st \<noteq> a"
  shows "loop_body K st =
           Inr (st\<lparr>attributes := a,
                   offset := offset st + (3 + length (py_join '';'' (sgr_format K (attributes st) a))),
                   the_text := rest\<rparr>)"
proof -
  have nf: "\<forall>c \<in> set (py_join '';'' (sgr_format K (attributes st) a)). \<not> final_byte c"
    using sgr_format_not_final [OF assms(2)] by blast
  show ?thesis
    using assms(1)
    by (simp add: loop_body_escape [OF assms(1)] handle_escape_sgr [OF assms(1) nf]
                  sgr_format_reads_back [OF assms(2,3)] advance_def drop_csi)
qed

lemma loop_body_glyph_at_end:
  assumes "the_text st = g # rest" "31 < py_ord g" "cursor st = int (length (result st))"
  shows "loop_body K st =
           Inr (st\<lparr>result := result st @ [(Some g, attributes st, last_offset st)],
                   cursor := cursor st + 1, last_offset := offset st + 1,
                   offset := offset st + 1, the_text := rest\<rparr>)"
  using assms by (simp add: loop_body_def advance_def slice_assign_def slice_index_def)

lemma loop_body_cursor_back:
  assumes "the_text st = ESC # CHR ''['' # py_str c @ CHR ''D'' # rest"
  shows "loop_body K st =
           Inr (st\<lparr>cursor := cursor st - c, offset := offset st + (3 + length (py_str c)),
                   the_text := rest\<rparr>)"
proof -
  have nf: "\<forall>x \<in> set (py_str c). \<not> final_byte x" by simp
  have fb: "final_byte (CHR ''D'')" by (simp add: final_byte_def py_ord_def)
  have m: "AnsiTerminalParser_colour_sequence (the_text st) =
             Some \<lparr>group1 = ESC # CHR ''['' # py_str c @ [CHR ''D''], group2 = py_str c,
                   group3 = CHR ''D''\<rparr>"
    unfolding assms by (rule colour_sequence_csi [OF nf fb])
  have h: "handle_escape K st = Inr (st\<lparr>cursor := cursor st - c\<rparr>, 3 + length (py_str c))"
    by (simp add: handle_escape_def m count_param_def py_str_nonempty py_int_py_str)
  show ?thesis
    using assms by (simp add: loop_body_escape [OF assms] h advance_def drop_csi)
qed

lemma normalize_loop_acc:
  "normalize_loop K es nv attrs = nv @ normalize_loop K es [] attrs"
proof (induction es arbitrary: nv attrs)
  case Nil
  then show ?case by simp
next
  case (Cons e es)
  obtain g a off where e: "e = (g, a, off)" by (cases e) auto
  let ?piece = "element_text K attrs e"
  have l: "normalize_loop K (e # es) nv attrs = normalize_loop K es (nv @ ?piece) a"
    by (cases g) (simp_all add: e element_text_def Let_def)
  have r: "normalize_loop K (e # es) [] attrs = normalize_loop K es ?piece a"
    by (cases g) (simp_all add: e element_text_def Let_def)
  show ?case
    using Cons.IH [of "nv @ ?piece" a] Cons.IH [of ?piece a] by (simp add: l r)
qed

lemma normalize_loop_Cons:
  "normalize_loop K (e # es) [] attrs =
     element_text K attrs e @ normalize_loop K es [] (fst (snd e))"
proof -
  obtain g a off where e: "e = (g, a, off)" by (cases e) auto
  have "normalize_loop K (e # es) [] attrs = normalize_loop K es (element_text K attrs e) a"
    by (cases g) (simp_all add: e element_text_def Let_def)
  then show ?thesis using normalize_loop_acc [of K es "element_text K attrs e" a] by (simp add: e)
qed

lemma closing_attributes_Cons:
  "closing_attributes prev (e # es) = closing_attributes (fst (snd e)) es"
  by (simp add: closing_attributes_def)

lemma normalize_loop_append:
  "normalize_loop K (es1 @ es2) [] attrs =
     normalize_loop K es1 [] attrs @ normalize_loop K es2 [] (closing_attributes attrs es1)"
proof (induction es1 arbitrary: attrs)
  case Nil
  then show ?case by (simp add: closing_attributes_def)
next
  case (Cons e es1)
  show ?case
    using Cons.IH [of "fst (snd e)"]
    by (simp add: normalize_loop_Cons closing_attributes_Cons del: normalize_loop.simps)
qed

lemma ansi_loop_reads_back:
  assumes "encodable_chain K (attributes st) es" "\<forall>e \<in> set es. printable e"
      and "cursor st = int (length (result st))"
      and "the_text st = normalize_loop K es [] (attributes st) @ tail"
      and "last_offset st \<le> offset st"
  shows "\<exists>st'. ansi_loop K st = ansi_loop K st'
            \<and> pairs (result st') = pairs (result st) @ pairs es
            \<and> attributes st' = closing_attributes (attributes st) es
            \<and> cursor st' = int (length (result st'))
            \<and> the_text st' = tail
            \<and> last_offset st' \<le> offset st'
            \<and> (es \<noteq> [] \<longrightarrow> last_offset st' = offset st')
            \<and> (es = [] \<longrightarrow> st' = st)"
  using assms
proof (induction es arbitrary: st)
  case Nil
  then show ?case by (auto simp: pairs_def closing_attributes_def)
next
  case (Cons e es)
  obtain g0 a off where e: "e = (g0, a, off)" by (cases e) auto
  obtain g where g: "g0 = Some g" "31 < py_ord g"
    using Cons.prems(2) by (auto simp: e printable_def split: option.splits)
  have enc: "encodable K (attributes st) a" "encodable_chain K a es"
    using Cons.prems(1) by (simp_all add: e)
  define rest where "rest = normalize_loop K es [] a @ tail"
  \<comment> \<open>the state in which the character of the element is read\<close>
  have "\<exists>s0. ansi_loop K st = ansi_loop K s0 \<and> result s0 = result st \<and> attributes s0 = a
            \<and> cursor s0 = cursor st \<and> the_text s0 = g # rest \<and> last_offset s0 \<le> offset s0"
  proof (cases "attributes st = a")
    case True
    have "the_text st = g # rest"
      using Cons.prems(4) True
      by (simp add: normalize_loop_Cons element_text_def e g rest_def del: normalize_loop.simps)
    then show ?thesis using True Cons.prems(5) by auto
  next
    case False
    let ?fmt = "py_join '';'' (sgr_format K (attributes st) a)"
    have t: "the_text st = ESC # CHR ''['' # ?fmt @ CHR ''m'' # g # rest"
      using Cons.prems(4) False
      by (simp add: normalize_loop_Cons element_text_def e g rest_def del: normalize_loop.simps)
    let ?s0 = "st\<lparr>attributes := a, offset := offset st + (3 + length ?fmt), the_text := g # rest\<rparr>"
    have "loop_body K st = Inr ?s0"
      using t enc(1) False by (rule loop_body_sgr_format)
    then have "ansi_loop K st = ansi_loop K ?s0"
      using t by (intro ansi_loop_step) simp_all
    then show ?thesis using Cons.prems(5) by (intro exI [of _ ?s0]) simp
  qed
  then obtain s0 where s0: "ansi_loop K st = ansi_loop K s0" "result s0 = result st"
    "attributes s0 = a" "cursor s0 = cursor st" "the_text s0 = g # rest"
    "last_offset s0 \<le> offset s0"
    by blast
  let ?s1 = "s0\<lparr>result := result s0 @ [(Some g, attributes s0, last_offset s0)],
                 cursor := cursor s0 + 1, last_offset := offset s0 + 1,
                 offset := offset s0 + 1, the_text := rest\<rparr>"
  have "loop_body K s0 = Inr ?s1"
    using s0(5) g(2) by (rule loop_body_glyph_at_end) (simp add: s0 Cons.prems(3))
  then have s1: "ansi_loop K s0 = ansi_loop K ?s1"
    using s0(5) by (intro ansi_loop_step) simp_all
  have "\<exists>st'. ansi_loop K ?s1 = ansi_loop K st'
            \<and> pairs (result st') = pairs (result ?s1) @ pairs es
            \<and> attributes st' = closing_attributes (attributes ?s1) es
            \<and> cursor st' = int (length (result st'))
            \<and> the_text st' = tail
            \<and> last_offset st' \<le> offset st'
            \<and> (es \<noteq> [] \<longrightarrow> last_offset st' = offset st')
            \<and> (es = [] \<longrightarrow> st' = ?s1)"
    using enc(2) Cons.prems(2,3) s0
    by (intro Cons.IH) (simp_all add: rest_def)
  then obtain st' where st': "ansi_loop K ?s1 = ansi_loop K st'"
    "pairs (result st') = pairs (result ?s1) @ pairs es"
    "attributes st' = closing_attributes (attributes ?s1) es"
    "cursor st' = int (length (result st'))" "the_text st' = tail"
    "last_offset st' \<le> offset st'"
    "es \<noteq> [] \<longrightarrow> last_offset st' = offset st'" "es = [] \<longrightarrow> st' = ?s1"
    by blast
  have p: "pairs (result st') = pairs (result st) @ pairs (e # es)"
    using st'(2) s0 by (simp add: pairs_def e g)
  have c: "attributes st' = closing_attributes (attributes st) (e # es)"
    using st'(3) s0 by (simp add: closing_attributes_Cons e)
  have l: "last_offset st' = offset st'"
    using st'(7,8) by (cases "es = []") auto
  show ?case
    using s0(1) s1 st'(1,4,5,6) p c l by (intro exI [of _ st']) simp
qed

lemma encodable_chain_append:
  "encodable_chain K prev (es1 @ es2) =
     (encodable_chain K prev es1 \<and> encodable_chain K (closing_attributes prev es1) es2)"
proof (induction es1 arbitrary: prev)
  case Nil
  then show ?case by (simp add: closing_attributes_def)
next
  case (Cons e es1)
  obtain g a off where e: "e = (g, a, off)" by (cases e) auto
  show ?case using Cons.IH [of a] by (simp add: e closing_attributes_Cons [of prev "(g, a, off)", simplified])
qed

lemma slice_to_member: "e \<in> set (slice_to i xs) \<Longrightarrow> e \<in> set xs"
  by (auto simp: slice_to_def dest: in_set_takeD)

lemma slice_from_member: "e \<in> set (slice_from i xs) \<Longrightarrow> e \<in> set xs"
  by (auto simp: slice_from_def dest: in_set_dropD)

lemma slice_assign_member: "e \<in> set (slice_assign i j ys xs) \<Longrightarrow> e \<in> set xs \<or> e \<in> set ys"
  by (auto simp: slice_assign_def Let_def dest: in_set_takeD in_set_dropD)

lemma handle_escape_result:
  assumes "handle_escape K st = Inr (st', n)" "e \<in> set (result st')"
  shows "e \<in> set (result st) \<or> e = (Some CHR '' '', attributes st, offset st)"
proof -
  let ?sp = "(Some CHR '' '', attributes st, offset st)"
  have "result st' = result st \<or> result st' = slice_to (cursor st) (result st)
      \<or> result st' = replicate (nat (cursor st)) ?sp @ slice_from (cursor st) (result st)
      \<or> result st' = replicate (nat (cursor st)) ?sp
      \<or> (\<exists>k. result st' = slice_to (cursor st) (result st) @ slice_from k (result st))"
    using assms(1)
    by (auto simp: handle_escape_def split: option.splits if_splits sum.splits)
  then show ?thesis
    using assms(2) by (auto dest: slice_to_member slice_from_member)
qed

lemma handle_escape_printable:
  assumes "handle_escape K st = Inr (st', n)" "\<forall>e \<in> set (result st). printable e"
  shows "\<forall>e \<in> set (result st'). printable e"
proof
  fix e assume "e \<in> set (result st')"
  then have "e \<in> set (result st) \<or> e = (Some CHR '' '', attributes st, offset st)"
    using assms(1) by (rule handle_escape_result [rotated])
  moreover have "printable (Some CHR '' '', attributes st, offset st)"
    by (simp add: printable_def py_ord_def)
  ultimately show "printable e" using assms(2) by blast
qed

lemma loop_body_printable:
  assumes "loop_body K st = Inr st'" "\<forall>e \<in> set (result st). printable e"
  shows "\<forall>e \<in> set (result st'). printable e"
proof (cases "the_text st")
  case Nil
  then show ?thesis using assms by (simp add: loop_body_def)
next
  case (Cons c cs)
  show ?thesis
  proof (cases "31 < py_ord c")
    case True
    have pc: "printable (Some c, attributes st, last_offset st)"
      using True by (simp add: printable_def)
    have "result st' = slice_assign (cursor st) (cursor st + 1)
                         [(Some c, attributes st, last_offset st)] (result st)"
      using assms(1) Cons True by (auto simp: loop_body_def advance_def)
    then show ?thesis using assms(2) pc by (auto dest!: slice_assign_member)
  next
    case False
    then have "result st' = result st \<or> (\<exists>s n. handle_escape K st = Inr (s, n) \<and> result st' = result s)"
      using assms(1) Cons
      by (auto simp: loop_body_def advance_def split: if_splits sum.splits)
    then show ?thesis
      using assms(2) handle_escape_printable [of K st] by auto
  qed
qed

lemma ansi_loop_printable:
  assumes "ansi_loop K st = Inr st'" "\<forall>e \<in> set (result st). printable e"
  shows "\<forall>e \<in> set (result st'). printable e"
  using assms
proof (induction K st rule: ansi_loop.induct)
  case (1 K st)
  show ?case
  proof (cases "the_text st = []")
    case True
    then show ?thesis using "1.prems" by (simp add: ansi_loop.simps)
  next
    case False
    then obtain s1 where s1: "loop_body K st = Inr s1" "ansi_loop K s1 = Inr st'"
      using "1.prems"(1) by (subst (asm) ansi_loop.simps) (auto split: sum.splits)
    have "\<forall>e \<in> set (result s1). printable e"
      using s1(1) "1.prems"(2) by (rule loop_body_printable)
    then show ?thesis using "1.IH" [OF False s1(1) s1(2)] by blast
  qed
qed

lemma closing_run:
  assumes "the_text st =
             (if attributes st \<noteq> a
              then ESC # CHR ''['' # py_join '';'' (sgr_format K (attributes st) a) @ ''m'' else [])
             @ (if 0 < c then ESC # CHR ''['' # py_str c @ ''D'' else [])"
      and "encodable K (attributes st) a" "attributes st \<noteq> a \<or> 0 < c"
      and "last_offset st \<le> offset st"
  shows "\<exists>s. ansi_loop K st = Inr s \<and> result s = result st \<and> attributes s = a
            \<and> last_offset s = last_offset st \<and> offset st < offset s"
proof -
  let ?d = "if 0 < c then ESC # CHR ''['' # py_str c @ ''D'' else []"
  \<comment> \<open>after the SGR sequence, if there is one\<close>
  have "\<exists>s0. ansi_loop K st = ansi_loop K s0 \<and> result s0 = result st \<and> attributes s0 = a
            \<and> last_offset s0 = last_offset st \<and> the_text s0 = ?d
            \<and> (if attributes st \<noteq> a then offset st < offset s0 else s0 = st)"
  proof (cases "attributes st = a")
    case True
    then show ?thesis using assms(1) by (intro exI [of _ st]) simp
  next
    case False
    let ?fmt = "py_join '';'' (sgr_format K (attributes st) a)"
    let ?s0 = "st\<lparr>attributes := a, offset := offset st + (3 + length ?fmt), the_text := ?d\<rparr>"
    have t: "the_text st = ESC # CHR ''['' # ?fmt @ CHR ''m'' # ?d"
      using assms(1) False by simp
    have "loop_body K st = Inr ?s0"
      using t assms(2) False by (rule loop_body_sgr_format)
    then have "ansi_loop K st = ansi_loop K ?s0"
      using t by (intro ansi_loop_step) simp_all
    then show ?thesis using False by (intro exI [of _ ?s0]) simp
  qed
  then obtain s0 where s0: "ansi_loop K st = ansi_loop K s0" "result s0 = result st"
    "attributes s0 = a" "last_offset s0 = last_offset st" "the_text s0 = ?d"
    "if attributes st \<noteq> a then offset st < offset s0 else s0 = st"
    by blast
  show ?thesis
  proof (cases "0 < c")
    case True
    let ?s1 = "s0\<lparr>cursor := cursor s0 - c, offset := offset s0 + (3 + length (py_str c)),
                   the_text := []\<rparr>"
    have t: "the_text s0 = ESC # CHR ''['' # py_str c @ CHR ''D'' # []"
      using s0(5) True by simp
    have "loop_body K s0 = Inr ?s1" using t by (rule loop_body_cursor_back)
    then have "ansi_loop K s0 = ansi_loop K ?s1" using t by (intro ansi_loop_step) simp_all
    moreover have "ansi_loop K ?s1 = Inr ?s1" by (rule ansi_loop_done) simp
    moreover have "offset st \<le> offset s0" using s0(6) by (auto split: if_splits)
    ultimately show ?thesis using s0 by (intro exI [of _ ?s1]) simp
  next
    case False
    then have ne: "attributes st \<noteq> a" using assms(3) by simp
    have "ansi_loop K s0 = Inr s0" using s0(5) False by (intro ansi_loop_done) simp
    then show ?thesis using s0 ne by (intro exI [of _ s0]) simp
  qed
qed

lemma round_trip_core:
  assumes sf: "ansi_loop K (initial_state txt colours) = Inr sf"
      and enc: "encodable_chain K (None, None, None) (p_result (finish txt colours sf))"
      and cl: "(list_all (\<lambda>e. fst e \<noteq> None) (p_result (finish txt colours sf))
                \<and> p_cursor (finish txt colours sf) \<le> 0)
             \<or> (p_result (finish txt colours sf) \<noteq> []
                \<and> fst (last (p_result (finish txt colours sf))) = None
                \<and> (0 < p_cursor (finish txt colours sf)
                    \<or> fst (snd (last (p_result (finish txt colours sf))))
                         \<noteq> closing_attributes (None, None, None)
                               (butlast (p_result (finish txt colours sf)))))"
  shows "\<exists>s. ansi_loop K (initial_state
                  (fst (AnsiTerminalParser_normalize K (finish txt colours sf))) None) = Inr s
           \<and> pairs (p_result (finish nv None s)) = pairs (p_result (finish txt colours sf))"
proof -
  let ?p = "finish txt colours sf"
  let ?N = "(None, None, None) :: colour_tuple"
  let ?G = "result sf"
  let ?c = "p_cursor ?p"
  let ?d = "if 0 < ?c then ESC # CHR ''['' # py_str ?c @ ''D'' else []"
  let ?nv = "fst (AnsiTerminalParser_normalize K ?p)"
  let ?s = "initial_state ?nv None"
  have pr: "\<forall>e \<in> set ?G. printable e"
    using sf by (rule ansi_loop_printable) (simp add: initial_state_def)
  have nv: "?nv = normalize_loop K (p_result ?p) [] ?N @ ?d"
    by (simp add: AnsiTerminalParser_normalize_def Let_def)
  have s_init: "attributes ?s = ?N" "cursor ?s = int (length (result ?s))" "result ?s = []"
    "last_offset ?s \<le> offset ?s" "the_text ?s = ?nv"
    by (simp_all add: initial_state_def)
  show ?thesis
  proof (cases "last_offset sf \<noteq> offset sf")
    case False
    then have res: "p_result ?p = ?G" by (simp add: finish_def)
    have "\<not> (p_result ?p \<noteq> [] \<and> fst (last (p_result ?p)) = None)"
    proof
      assume a: "p_result ?p \<noteq> [] \<and> fst (last (p_result ?p)) = None"
      then have "last ?G \<in> set ?G" using res by simp
      then have "printable (last ?G)" using pr by blast
      then show False using a res by (simp add: printable_def)
    qed
    then have c0: "\<not> 0 < ?c" using cl by auto
    have t: "the_text ?s = normalize_loop K ?G [] (attributes ?s) @ []"
      using nv res c0 s_init by simp
    have e: "encodable_chain K (attributes ?s) ?G" using enc res s_init by simp
    obtain st' where st': "ansi_loop K ?s = ansi_loop K st'"
      "pairs (result st') = pairs (result ?s) @ pairs ?G" "the_text st' = []"
      "?G \<noteq> [] \<longrightarrow> last_offset st' = offset st'" "?G = [] \<longrightarrow> st' = ?s"
      using ansi_loop_reads_back [OF e pr s_init(2) t s_init(4)] by blast
    have d: "ansi_loop K ?s = Inr st'" using st'(1,3) by (simp add: ansi_loop_done)
    have "last_offset st' = offset st'"
      using st'(4,5) by (cases "?G = []") (auto simp: initial_state_def)
    then have "p_result (finish nv None st') = result st'" by (simp add: finish_def)
    then have "pairs (p_result (finish nv None st')) = pairs (p_result ?p)"
      using st'(2) res s_init(3) by (simp add: pairs_def)
    then show ?thesis using d by blast
  next
    case True
    let ?m = "(None, attributes sf, last_offset sf) :: element"
    let ?prev = "closing_attributes ?N ?G"
    have res: "p_result ?p = ?G @ [?m]" using True by (simp add: finish_def)
    have "\<not> list_all (\<lambda>e. fst e \<noteq> None) (p_result ?p)" using res by simp
    then have need: "0 < ?c \<or> attributes sf \<noteq> ?prev" using cl res by auto
    have e: "encodable_chain K (attributes ?s) ?G" "encodable K ?prev (attributes sf)"
      using enc res s_init by (simp_all add: encodable_chain_append)
    let ?tail = "(if ?prev \<noteq> attributes sf
                  then ESC # CHR ''['' # py_join '';'' (sgr_format K ?prev (attributes sf)) @ ''m''
                  else []) @ ?d"
    have "normalize_loop K (?G @ [?m]) [] ?N = normalize_loop K ?G [] ?N @ element_text K ?prev ?m"
      by (simp add: normalize_loop_append normalize_loop_Cons normalize_loop.simps(1)
               del: normalize_loop.simps(2))
    then have t: "the_text ?s = normalize_loop K ?G [] (attributes ?s) @ ?tail"
      using nv res s_init by (simp add: element_text_def)
    obtain st' where st': "ansi_loop K ?s = ansi_loop K st'"
      "pairs (result st') = pairs (result ?s) @ pairs ?G"
      "attributes st' = closing_attributes (attributes ?s) ?G"
      "the_text st' = ?tail" "last_offset st' \<le> offset st'"
      using ansi_loop_reads_back [OF e(1) pr s_init(2) t s_init(4)] by blast
    have a: "attributes st' = ?prev" using st'(3) s_init by simp
    have t': "the_text st' =
                (if attributes st' \<noteq> attributes sf
                 then ESC # CHR ''['' # py_join '';'' (sgr_format K (attributes st') (attributes sf)) @ ''m''
                 else [])
                @ (if 0 < ?c then ESC # CHR ''['' # py_str ?c @ ''D'' else [])"
      using st'(4) a by simp
    have e': "encodable K (attributes st') (attributes sf)" using e(2) a by simp
    have need': "attributes st' \<noteq> attributes sf \<or> 0 < ?c" using need a by auto
    obtain s where s: "ansi_loop K st' = Inr s" "result s = result st'"
      "attributes s = attributes sf" "last_offset s = last_offset st'" "offset st' < offset s"
      using closing_run [OF t' e' need' st'(5)] by blast
    have "last_offset s \<noteq> offset s" using s(4,5) st'(5) by simp
    then have "p_result (finish nv None s) = result s @ [(None, attributes s, last_offset s)]"
      by (simp add: finish_def)
    then have "pairs (p_result (finish nv None s)) = pairs (p_result ?p)"
      using s(2,3) st'(2) res s_init(3) by (simp add: pairs_def)
    then show ?thesis using st'(1) s(1) by auto
  qed
qed

text \<open>
  Claim C1 (round trip of the terminal parser), as the claim states it: for every text the
  pairs of the re-parsed canonical string equal those of the first result. Three texts
  parsed with no initial colours show otherwise. A letter followed by a line feed: the
  closing attribute-only element is lost. Two letters, a carriage return and a letter:
  the canonical string ends with \<^verbatim>\<open>ESC[1D\<close> and the re-parse gains a closing element.
  The same with \<^verbatim>\<open>ESC[31m\<close> before the last letter: the second element has an unset
  foreground after a set one, \<^verbatim>\<open>normalize\<close> writes \<^verbatim>\<open>38;5;None\<close>, and the re-parse reads the
  letters \<open>o\<close>, \<open>n\<close>, \<open>e\<close>, \<open>m\<close> as text.
\<close>

theorem round_trip_differs_counterexample:
  "round_trip sample_constants (''a'' @ [CHR 0x0A]) None =
     Inr (''a'',
          [(Some CHR ''a'', (None, None, None)), (None, (None, None, None))],
          [(Some CHR ''a'', (None, None, None))])
   \<and> round_trip sample_constants (''ab'' @ [CHR 0x0D] @ ''c'') None =
     Inr (''cb'' @ ESC # ''[1D'',
          [(Some CHR ''c'', (None, None, None)), (Some CHR ''b'', (None, None, None))],
          [(Some CHR ''c'', (None, None, None)), (Some CHR ''b'', (None, None, None)),
           (None, (None, None, None))])
   \<and> round_trip sample_constants (''ab'' @ [CHR 0x0D] @ ESC # ''[31mc'') None =
     Inr (ESC # ''[38;5;1mc'' @ ESC # ''[38;5;Nonemb'' @ ESC # ''[1D'',
          [(Some CHR ''c'', (Some 1, None, None)), (Some CHR ''b'', (None, None, None))],
          [(Some CHR ''c'', (Some 1, None, None)), (Some CHR ''o'', (Some 1, None, None)),
           (Some CHR ''n'', (Some 1, None, None)), (Some CHR ''e'', (Some 1, None, None)),
           (Some CHR ''m'', (Some 1, None, None)), (Some CHR ''b'', (Some 1, None, None)),
           (None, (Some 1, None, None))])"
  by code_simp

text \<open>
  Claim C1, amended. Let \<^verbatim>\<open>reset\<close> have produced a result in which (a) every component of
  an element's colour tuple that differs from the one of the element before it (from
  \<^verbatim>\<open>None\<close>, for the first element) is an integer, a differing attribute being bold, normal
  or reverse, and (b) either every element carries a character and the reported cursor is
  not positive, or the last element is the closing attribute-only element and its colour
  tuple differs from the one before it or the reported cursor is positive. Then \<^verbatim>\<open>reset\<close>
  on the string returned by \<^verbatim>\<open>normalize\<close>, with no initial colours, returns, and its result
  has the same sequence of (text, colour tuple) pairs.
\<close>

theorem normalize_then_reset_round_trip:
  assumes "AnsiTerminalParser_reset K txt colours = Inr p"
      and "encodable_chain K (None, None, None) (p_result p)"
      and "(list_all (\<lambda>e. fst e \<noteq> None) (p_result p) \<and> p_cursor p \<le> 0)
           \<or> (p_result p \<noteq> [] \<and> fst (last (p_result p)) = None
               \<and> (0 < p_cursor p
                   \<or> fst (snd (last (p_result p)))
                        \<noteq> closing_attributes (None, None, None) (butlast (p_result p))))"
  shows "\<exists>p'. AnsiTerminalParser_reset K (fst (AnsiTerminalParser_normalize K p)) None = Inr p'
            \<and> pairs (p_result p') = pairs (p_result p)"
proof -
  obtain sf where sf: "ansi_loop K (initial_state txt colours) = Inr sf"
    and p: "p = finish txt colours sf"
    using assms(1) by (auto simp: AnsiTerminalParser_reset_def split: sum.splits)
  let ?nv = "fst (AnsiTerminalParser_normalize K p)"
  obtain s where s: "ansi_loop K (initial_state ?nv None) = Inr s"
    "pairs (p_result (finish ?nv None s)) = pairs (p_result p)"
    using round_trip_core [OF sf assms(2,3) [unfolded p], of ?nv] unfolding p by blast
  have "AnsiTerminalParser_reset K ?nv None = Inr (finish ?nv None s)"
    using s(1) by (simp add: AnsiTerminalParser_reset_def)
  then show ?thesis using s(2) by blast
qed

theorem normalize_then_reset_round_trip_witness:
  "AnsiTerminalParser_reset sample_constants (ESC # ''[31;1;44mab'' @ ESC # ''[0m'') None =
     Inr \<lparr>raw_text = ESC # ''[31;1;44mab'' @ ESC # ''[0m'', p_attributes = None, p_cursor = 0,
          p_result = [(Some CHR ''a'', (Some 1, Some 1, Some 4), 0),
                      (Some CHR ''b'', (Some 1, Some 1, Some 4), 11),
                      (None, (Some 7, Some 2, Some 0), 12)]\<rparr>
   \<and> round_trip sample_constants (ESC # ''[31;1;44mab'' @ ESC # ''[0m'') None =
     Inr (ESC # ''[38;5;1;1;48;5;4mab'' @ ESC # ''[38;5;7;2;48;5;0m'',
          [(Some CHR ''a'', (Some 1, Some 1, Some 4)), (Some CHR ''b'', (Some 1, Some 1, Some 4)),
           (None, (Some 7, Some 2, Some 0))],
          [(Some CHR ''a'', (Some 1, Some 1, Some 4)), (Some CHR ''b'', (Some 1, Some 1, Some 4)),
           (None, (Some 7, Some 2, Some 0))])
   \<and> (\<exists>p'. AnsiTerminalParser_reset sample_constants
              (ESC # ''[38;5;1;1;48;5;4mab'' @ ESC # ''[38;5;7;2;48;5;0m'') None = Inr p'
            \<and> pairs (p_result p') =
                [(Some CHR ''a'', (Some 1, Some 1, Some 4)), (Some CHR ''b'', (Some 1, Some 1, Some 4)),
                 (None, (Some 7, Some 2, Some 0))])"
proof -
  let ?P = "\<lparr>raw_text = ESC # ''[31;1;44mab'' @ ESC # ''[0m'', p_attributes = None, p_cursor = 0,
          p_result = [(Some CHR ''a'', (Some 1, Some 1, Some 4), 0),
                      (Some CHR ''b'', (Some 1, Some 1, Some 4), 11),
                      (None, (Some 7, Some 2, Some 0), 12)]\<rparr>"
  have r: "AnsiTerminalParser_reset sample_constants (ESC # ''[31;1;44mab'' @ ESC # ''[0m'') None
             = Inr ?P"
    by code_simp
  have e: "encodable_chain sample_constants (None, None, None) (p_result ?P)"
    by (simp add: sample_constants_def)
  have c: "(list_all (\<lambda>e. fst e \<noteq> None) (p_result ?P) \<and> p_cursor ?P \<le> 0)
           \<or> (p_result ?P \<noteq> [] \<and> fst (last (p_result ?P)) = None
               \<and> (0 < p_cursor ?P
                   \<or> fst (snd (last (p_result ?P)))
                        \<noteq> closing_attributes (None, None, None) (butlast (p_result ?P))))"
    by (simp add: closing_attributes_def)
  have n: "fst (AnsiTerminalParser_normalize sample_constants ?P)
             = ESC # ''[38;5;1;1;48;5;4mab'' @ ESC # ''[38;5;7;2;48;5;0m''"
    by code_simp
  have t: "round_trip sample_constants (ESC # ''[31;1;44mab'' @ ESC # ''[0m'') None =
     Inr (ESC # ''[38;5;1;1;48;5;4mab'' @ ESC # ''[38;5;7;2;48;5;0m'',
          [(Some CHR ''a'', (Some 1, Some 1, Some 4)), (Some CHR ''b'', (Some 1, Some 1, Some 4)),
           (None, (Some 7, Some 2, Some 0))],
          [(Some CHR ''a'', (Some 1, Some 1, Some 4)), (Some CHR ''b'', (Some 1, Some 1, Some 4)),
           (None, (Some 7, Some 2, Some 0))])"
    by code_simp
  show ?thesis
    using r t normalize_then_reset_round_trip [OF r e c, unfolded n]
    by (simp add: pairs_def)
qed

end
